theory Spec2Isabelle
  imports Main "HOL-Library.Word"
begin

section \<open>Trace data: stats, events, lines, planes\<close>

text \<open>
  The grouping pass of \<^verbatim>\<open>group_events.cc\<close> works on XPlane traces. The 64-bit integers of
  the source (\<^verbatim>\<open>int64\<close>, \<^verbatim>\<open>uint64\<close>) are 64-bit words; an unsigned value that is stored
  into an \<^verbatim>\<open>int64\<close> keeps its bits.
\<close>

type_synonym int64 = "64 word"

text \<open>
  Modelled from the spec: \<^verbatim>\<open>xplane_schema.h\<close> is not among the sources. The well-known
  identifiers of event types and stat types (the enums \<^verbatim>\<open>HostEventType\<close> and \<^verbatim>\<open>StatType\<close>)
  are the members that \<^verbatim>\<open>group_events.cc\<close> names, and one constructor stands for every
  other identifier.
\<close>

datatype HostEventType =
    kUnknownHostEventType
  | kTraceContext
  | kSessionRun
  | kFunctionRun
  | kExecutorStateProcess
  | kKernelLaunch
  | kKernelExecute
  | OtherHostEventType nat

datatype StatType =
    kStepId
  | kCorrelationId
  | kDeviceId
  | kGraphType
  | kStepNum
  | kIterNum
  | kGroupId
  | kStepName
  | OtherStatType nat

text \<open>
  Modelled from the spec: the XStat message (\<^verbatim>\<open>xplane.proto\<close>) is not among the sources.
  A stat is a (stat-type identifier, value) pair whose value is one of signed integer,
  unsigned integer, string. The accessors are those of a protobuf \<^verbatim>\<open>oneof\<close>: reading a
  member that is not the one set yields the default (0, the empty string).
\<close>

datatype StatValue = Int64Value int64 | Uint64Value int64 | StrValue string

record XStat =
  stat_metadata_id :: int64
  stat_value :: StatValue

definition int64_value :: "XStat \<Rightarrow> int64" where
  "int64_value s = (case stat_value s of Int64Value v \<Rightarrow> v | _ \<Rightarrow> 0)"

definition uint64_value :: "XStat \<Rightarrow> int64" where
  "uint64_value s = (case stat_value s of Uint64Value v \<Rightarrow> v | _ \<Rightarrow> 0)"

definition str_value :: "XStat \<Rightarrow> string" where
  "str_value s = (case stat_value s of StrValue v \<Rightarrow> v | _ \<Rightarrow> [])"

definition is_int64_value :: "XStat \<Rightarrow> bool" where
  "is_int64_value s = (case stat_value s of Int64Value v \<Rightarrow> True | _ \<Rightarrow> False)"

text \<open>
  Modelled from the spec: an event is a time interval \<open>[start, start + duration)\<close> on a
  line, an event-type identifier (through its metadata id) and an ordered list of stats.
\<close>

record XEvent =
  event_metadata_id :: int64
  offset_ps :: int
  duration_ps :: int
  stats :: "XStat list"

record XLine =
  events :: "XEvent list"

text \<open>
  Modelled from the spec: \<^verbatim>\<open>XPlaneVisitor\<close> (\<^verbatim>\<open>tf_xplane_visitor.h\<close>) is the schema
  capability that yields the event type of an event, the stat type of a stat and the
  metadata id (the slot to write) of a stat type; each lookup may fail. The three tables
  are kept with the plane they are built from and are never changed by the pass.
\<close>

record XPlaneVisitor =
  stat_types :: "(int64 \<times> StatType) list"
  event_types :: "(int64 \<times> HostEventType) list"
  stat_metadata_ids :: "(StatType \<times> int64) list"

record XPlane =
  lines :: "XLine list"
  schema :: XPlaneVisitor

definition CreateTfXPlaneVisitor :: "XPlane \<Rightarrow> XPlaneVisitor" where
  "CreateTfXPlaneVisitor plane = schema plane"

definition GetStatType :: "XPlaneVisitor \<Rightarrow> XStat \<Rightarrow> StatType option" where
  "GetStatType visitor stat = map_of (stat_types visitor) (stat_metadata_id stat)"

definition GetEventType :: "XPlaneVisitor \<Rightarrow> XEvent \<Rightarrow> HostEventType option" where
  "GetEventType visitor event = map_of (event_types visitor) (event_metadata_id event)"

definition GetStatMetadataId :: "XPlaneVisitor \<Rightarrow> StatType \<Rightarrow> int64 option" where
  "GetStatMetadataId visitor stat_type = map_of (stat_metadata_ids visitor) stat_type"

text \<open>
  Modelled from the spec: \<^verbatim>\<open>IsNested\<close> (\<^verbatim>\<open>xplane_utils.h\<close>) is temporal containment: the
  event's interval is within the parent's interval, both start and end bounds, equal
  bounds counting as contained.
\<close>

definition IsNested :: "XEvent \<Rightarrow> XEvent \<Rightarrow> bool" where
  "IsNested event parent \<longleftrightarrow>
     offset_ps parent \<le> offset_ps event \<and>
     offset_ps event + duration_ps event \<le> offset_ps parent + duration_ps parent"

text \<open>
  Modelled from the spec: \<^verbatim>\<open>AddOrUpdateIntStat\<close> and \<^verbatim>\<open>AddOrUpdateStrStat\<close>
  (\<^verbatim>\<open>xplane_utils.h\<close>) add a stat to the event, or update the value of the first stat that
  already has the metadata id.
\<close>

fun add_or_update :: "int64 \<Rightarrow> StatValue \<Rightarrow> XStat list \<Rightarrow> XStat list" where
  "add_or_update i v [] = [\<lparr>stat_metadata_id = i, stat_value = v\<rparr>]"
| "add_or_update i v (s # ss) =
     (if stat_metadata_id s = i then s\<lparr>stat_value := v\<rparr> # ss
      else s # add_or_update i v ss)"

definition AddOrUpdateIntStat :: "int64 \<Rightarrow> int64 \<Rightarrow> XEvent \<Rightarrow> XEvent" where
  "AddOrUpdateIntStat metadata_id v event =
     event\<lparr>stats := add_or_update metadata_id (Int64Value v) (stats event)\<rparr>"

definition AddOrUpdateStrStat :: "int64 \<Rightarrow> string \<Rightarrow> XEvent \<Rightarrow> XEvent" where
  "AddOrUpdateStrStat metadata_id v event =
     event\<lparr>stats := add_or_update metadata_id (StrValue v) (stats event)\<rparr>"

section \<open>The helpers of the anonymous namespace\<close>

text \<open>
  \<^verbatim>\<open>GetKernelEventType\<close>: one scan of the stats with two flags; the second test is the
  \<^verbatim>\<open>else if\<close> of the source.
\<close>

fun kernel_flags :: "XPlaneVisitor \<Rightarrow> XStat list \<Rightarrow> bool \<times> bool \<Rightarrow> bool \<times> bool" where
  "kernel_flags visitor [] fl = fl"
| "kernel_flags visitor (stat # ss) (found_correlation_id, found_device_id) =
     (if GetStatType visitor stat = Some kCorrelationId
      then kernel_flags visitor ss (True, found_device_id)
      else if GetStatType visitor stat = Some kDeviceId
      then kernel_flags visitor ss (found_correlation_id, True)
      else kernel_flags visitor ss (found_correlation_id, found_device_id))"

definition GetKernelEventType :: "XPlaneVisitor \<Rightarrow> XEvent \<Rightarrow> HostEventType option" where
  "GetKernelEventType visitor event =
     (case kernel_flags visitor (stats event) (False, False) of
        (found_correlation_id, found_device_id) \<Rightarrow>
          if found_correlation_id
          then Some (if found_device_id then kKernelLaunch else kKernelExecute)
          else None)"

definition GetStat :: "XPlaneVisitor \<Rightarrow> XEvent \<Rightarrow> StatType \<Rightarrow> XStat option" where
  "GetStat visitor event stat_type =
     find (\<lambda>stat. GetStatType visitor stat = Some stat_type) (stats event)"

definition SetGroupId :: "XPlaneVisitor \<Rightarrow> int64 \<Rightarrow> XEvent \<Rightarrow> XEvent" where
  "SetGroupId visitor group_id event =
     (case GetStatMetadataId visitor kGroupId of
        Some metadata_id \<Rightarrow> AddOrUpdateIntStat metadata_id group_id event
      | None \<Rightarrow> event)"

record InterThreadConnectInfo =
  parent_event_type :: HostEventType
  child_event_type :: HostEventType
  connect_stat_types :: "StatType list"

type_synonym EventNodeMap = "HostEventType \<rightharpoonup> nat list"

definition try_emplace :: "EventNodeMap \<Rightarrow> HostEventType \<Rightarrow> EventNodeMap" where
  "try_emplace m t = (case m t of None \<Rightarrow> m(t \<mapsto> []) | Some l \<Rightarrow> m)"

definition CreateEventNodeMap ::
  "InterThreadConnectInfo list \<Rightarrow> HostEventType list \<Rightarrow> EventNodeMap" where
  "CreateEventNodeMap connect_info_list root_event_types =
     fold (\<lambda>event_type m. try_emplace m event_type) root_event_types
       (fold (\<lambda>connect_info m.
                try_emplace (try_emplace m (parent_event_type connect_info))
                  (child_event_type connect_info))
          connect_info_list Map.empty)"

section \<open>Event nodes and the node store\<close>

text \<open>
  An \<^verbatim>\<open>EventNode\<close> is shared between index buckets, child lists and the stack of the
  intra-thread pass, and holds a pointer to its event, which the pass mutates. So nodes
  live in a store, addressed by their creation index, and an event is addressed by its
  plane, line and position. The planes of one call are the host plane followed by the
  device planes (the pointers are taken to be distinct). The members \<^verbatim>\<open>visitor_\<close>,
  \<^verbatim>\<open>event_\<close>, \<^verbatim>\<open>parent_\<close>, \<^verbatim>\<open>children_\<close> and \<^verbatim>\<open>group_id_\<close> are the fields \<open>node_visitor\<close>,
  \<open>node_event\<close>, \<open>node_parent\<close>, \<open>node_children\<close> and \<open>node_group_id\<close>.

  In the source a node lives as long as a \<^verbatim>\<open>shared_ptr\<close> holds it: an entry of a bucket
  of the index, an entry of the child list of a live node, an entry of the stack of its
  line. The store keeps the use count of every node, \<open>use_counts\<close>: the number of these
  entries; the node is created with the count 1 of the local \<^verbatim>\<open>cur_node\<close>, which goes
  over to its stack entry at the end of the loop body. The other local copies
  (\<^verbatim>\<open>parent_node\<close> in the loop over the stack, the values of \<^verbatim>\<open>connect_map\<close>) are made
  and destroyed while a container holds the node, and are not counted. At the count 0
  the node has been destroyed; the store keeps its index and its last fields, which
  nothing may read any more. \<^verbatim>\<open>parent_\<close> is a raw pointer and does not count: a node
  without a parent that is in no bucket is destroyed when it leaves the stack, and a
  child that a bucket keeps alive then holds a dangling \<^verbatim>\<open>parent_\<close>.
\<close>

type_synonym event_ref = "nat \<times> nat \<times> nat"

record EventNode =
  node_visitor :: XPlaneVisitor
  node_event :: event_ref
  node_parent :: "nat option"
  node_children :: "nat list"
  node_group_id :: "int64 option"

record State =
  planes :: "XPlane list"
  nodes :: "EventNode list"
  use_counts :: "nat list"

definition get_event :: "XPlane list \<Rightarrow> event_ref \<Rightarrow> XEvent" where
  "get_event ps r = (case r of (p, l, e) \<Rightarrow> events (lines (ps ! p) ! l) ! e)"

definition update_event :: "(XEvent \<Rightarrow> XEvent) \<Rightarrow> event_ref \<Rightarrow> XPlane list \<Rightarrow> XPlane list" where
  "update_event f r ps =
     (case r of (p, l, e) \<Rightarrow>
        ps[p := (ps ! p)\<lparr>lines := (lines (ps ! p))
          [l := (lines (ps ! p) ! l)\<lparr>events := (events (lines (ps ! p) ! l))
            [e := f (events (lines (ps ! p) ! l) ! e)]\<rparr>]\<rparr>])"

definition GetEvent :: "State \<Rightarrow> nat \<Rightarrow> XEvent" where
  "GetEvent st n = get_event (planes st) (node_event (nodes st ! n))"

text \<open>A copy of a \<^verbatim>\<open>shared_ptr\<close> to node \<open>n\<close> is stored in a container.\<close>

definition retain :: "nat \<Rightarrow> State \<Rightarrow> State" where
  "retain n st = st\<lparr>use_counts := (use_counts st)[n := Suc (use_counts st ! n)]\<rparr>"

text \<open>
  The \<^verbatim>\<open>shared_ptr\<close> to the nodes of a list are destroyed, in order. The last pointer to a
  node destroys the node, and with it the pointers of its child list, before the rest of
  the list is dealt with.
\<close>

function release :: "nat list \<Rightarrow> State \<Rightarrow> State" where
  "release [] st = st"
| "release (n # ns) st =
     (if n < length (use_counts st) \<and> 0 < use_counts st ! n
      then (if use_counts st ! n = 1
            then release (node_children (nodes st ! n) @ ns)
                   (st\<lparr>use_counts := (use_counts st)[n := 0]\<rparr>)
            else release ns (st\<lparr>use_counts := (use_counts st)[n := use_counts st ! n - 1]\<rparr>))
      else release ns st)"
  by pat_completeness auto

termination
proof (relation "measures [\<lambda>(ns, st). sum_list (use_counts st), \<lambda>(ns, st). length ns]")
  show "wf (measures [\<lambda>(ns, st). sum_list (use_counts st), \<lambda>(ns, st). length ns])" by simp
next
  fix n :: nat and ns :: "nat list" and st :: State
  assume a: "n < length (use_counts st) \<and> 0 < use_counts st ! n" "use_counts st ! n = 1"
  then have "use_counts st ! n \<in> set (use_counts st)" by (intro nth_mem) simp
  then have "use_counts st ! n \<le> sum_list (use_counts st)" by (simp add: member_le_sum_list)
  with a have "sum_list ((use_counts st)[n := 0]) < sum_list (use_counts st)"
    by (simp add: sum_list_update)
  then show "((node_children (nodes st ! n) @ ns, st\<lparr>use_counts := (use_counts st)[n := 0]\<rparr>), n # ns, st)
          \<in> measures [\<lambda>(ns, st). sum_list (use_counts st), \<lambda>(ns, st). length ns]"
    by simp
next
  fix n :: nat and ns :: "nat list" and st :: State
  assume a: "n < length (use_counts st) \<and> 0 < use_counts st ! n" "use_counts st ! n \<noteq> 1"
  then have "use_counts st ! n \<in> set (use_counts st)" by (intro nth_mem) simp
  then have "use_counts st ! n \<le> sum_list (use_counts st)" by (simp add: member_le_sum_list)
  with a have "sum_list ((use_counts st)[n := use_counts st ! n - 1]) < sum_list (use_counts st)"
    by (simp add: sum_list_update)
  then show "((ns, st\<lparr>use_counts := (use_counts st)[n := use_counts st ! n - 1]\<rparr>), n # ns, st)
          \<in> measures [\<lambda>(ns, st). sum_list (use_counts st), \<lambda>(ns, st). length ns]"
    by simp
next
  fix n :: nat and ns :: "nat list" and st :: State
  show "((ns, st), n # ns, st)
          \<in> measures [\<lambda>(ns, st). sum_list (use_counts st), \<lambda>(ns, st). length ns]"
    by simp
qed

declare release.simps [simp del]

definition AddChild :: "nat \<Rightarrow> nat \<Rightarrow> State \<Rightarrow> State" where
  "AddChild n child st =
     retain child
       (st\<lparr>nodes := (nodes st)[n := (nodes st ! n)\<lparr>node_children := node_children (nodes st ! n) @ [child]\<rparr>]\<rparr>)"

definition SetParent :: "nat \<Rightarrow> nat \<Rightarrow> State \<Rightarrow> State" where
  "SetParent n parent st =
     st\<lparr>nodes := (nodes st)[n := (nodes st ! n)\<lparr>node_parent := Some parent\<rparr>]\<rparr>"

text \<open>
  The undefined behaviour of the source that the pass can reach, as error values: a call
  through a \<^verbatim>\<open>parent_\<close> pointer whose node has been destroyed, and the dereference of an
  empty \<^verbatim>\<open>absl::optional\<close>.
\<close>

datatype error = UseAfterFree | NulloptDereference

text \<open>
  \<^verbatim>\<open>EventNode::GetContextStat\<close> recurses through the parent pointers, which can form a
  cycle once inter-thread links exist. The first argument bounds the depth of the
  recursion; the outer \<open>None\<close> says that the bound was reached. The inner option is the
  \<^verbatim>\<open>absl::optional\<close> of the source. The call \<^verbatim>\<open>parent_->GetContextStat\<close> on a destroyed
  node is the error \<open>UseAfterFree\<close>.
\<close>

fun GetContextStat :: "nat \<Rightarrow> State \<Rightarrow> nat \<Rightarrow> StatType \<Rightarrow> (error + XStat option) option" where
  "GetContextStat 0 st n stat_type = None"
| "GetContextStat (Suc fuel) st n stat_type =
     (case GetStat (node_visitor (nodes st ! n)) (GetEvent st n) stat_type of
        Some stat \<Rightarrow> Some (Inr (Some stat))
      | None \<Rightarrow>
          (case node_parent (nodes st ! n) of
             Some p \<Rightarrow>
               if use_counts st ! p = 0 then Some (Inl UseAfterFree)
               else GetContextStat fuel st p stat_type
           | None \<Rightarrow> Some (Inr None)))"

text \<open>\<^verbatim>\<open>absl::StrCat\<close> of an \<^verbatim>\<open>int64\<close> (its signed decimal form) and \<^verbatim>\<open>absl::StrJoin\<close>.\<close>

fun dec_nat :: "nat \<Rightarrow> string" where
  "dec_nat n =
     (if n < 10 then [''0123456789'' ! n]
      else dec_nat (n div 10) @ [''0123456789'' ! (n mod 10)])"

declare dec_nat.simps [simp del]

definition decimal :: "int \<Rightarrow> string" where
  "decimal i = (if i < 0 then CHR ''-'' # dec_nat (nat (- i)) else dec_nat (nat i))"

definition StrCat :: "int64 \<Rightarrow> string" where
  "StrCat v = decimal (sint v)"

fun StrJoin :: "string list \<Rightarrow> string \<Rightarrow> string" where
  "StrJoin [] sep = []"
| "StrJoin [x] sep = x"
| "StrJoin (x # y # r) sep = x @ sep @ StrJoin (y # r) sep"

definition GetGroupName :: "nat \<Rightarrow> State \<Rightarrow> nat \<Rightarrow> (error + string) option" where
  "GetGroupName fuel st n =
     (case GetContextStat fuel st n kGraphType of
        None \<Rightarrow> None
      | Some (Inl e) \<Rightarrow> Some (Inl e)
      | Some (Inr graph_type_stat) \<Rightarrow>
     (case GetContextStat fuel st n kStepNum of
        None \<Rightarrow> None
      | Some (Inl e) \<Rightarrow> Some (Inl e)
      | Some (Inr step_num_stat) \<Rightarrow>
     (case GetContextStat fuel st n kIterNum of
        None \<Rightarrow> None
      | Some (Inl e) \<Rightarrow> Some (Inl e)
      | Some (Inr iter_num_stat) \<Rightarrow>
          (let name_parts = (case graph_type_stat of Some s \<Rightarrow> [str_value s] | None \<Rightarrow> []);
               step_num0 = (case step_num_stat of Some s \<Rightarrow> int64_value s | None \<Rightarrow> 0);
               step_num = (case iter_num_stat of Some s \<Rightarrow> step_num0 + int64_value s
                           | None \<Rightarrow> step_num0)
           in Some (Inr (StrJoin (name_parts @ [StrCat step_num]) '' ''))))))"

text \<open>
  \<^verbatim>\<open>EventNode::PropagateGroupId\<close>: the node takes the id, the id is written onto its
  event (\<^verbatim>\<open>SetGroupId\<close>), and the call recurses into every entry of the child list. The
  child lists can form a cycle, so the depth is bounded as for \<open>GetContextStat\<close>.
\<close>

definition assign_group_id :: "int64 \<Rightarrow> nat \<Rightarrow> State \<Rightarrow> State" where
  "assign_group_id group_id n st =
     st\<lparr>nodes := (nodes st)[n := (nodes st ! n)\<lparr>node_group_id := Some group_id\<rparr>],
        planes := update_event (SetGroupId (node_visitor (nodes st ! n)) group_id)
                    (node_event (nodes st ! n)) (planes st)\<rparr>"

fun PropagateGroupId :: "nat \<Rightarrow> int64 \<Rightarrow> nat \<Rightarrow> State \<Rightarrow> State option"
  and PropagateGroupId_children :: "nat \<Rightarrow> int64 \<Rightarrow> nat list \<Rightarrow> State \<Rightarrow> State option" where
  "PropagateGroupId 0 group_id n st = None"
| "PropagateGroupId (Suc fuel) group_id n st =
     PropagateGroupId_children fuel group_id (node_children (nodes st ! n))
       (assign_group_id group_id n st)"
| "PropagateGroupId_children fuel group_id [] st = Some st"
| "PropagateGroupId_children fuel group_id (child # cs) st =
     (case PropagateGroupId fuel group_id child st of
        None \<Rightarrow> None
      | Some st' \<Rightarrow> PropagateGroupId_children fuel group_id cs st')"

text \<open>
  \<^verbatim>\<open>EventNode::AddStepName\<close> dereferences the optional metadata id without a test; on an
  empty optional that is the error \<open>NulloptDereference\<close>.
\<close>

definition AddStepName :: "string \<Rightarrow> nat \<Rightarrow> State \<Rightarrow> error + State" where
  "AddStepName step_name n st =
     (case GetStatMetadataId (node_visitor (nodes st ! n)) kStepName of
        None \<Rightarrow> Inl NulloptDereference
      | Some metadata_id \<Rightarrow>
          Inr (st\<lparr>planes := update_event (AddOrUpdateStrStat metadata_id step_name)
                               (node_event (nodes st ! n)) (planes st)\<rparr>))"

section \<open>The intra-thread pass\<close>

text \<open>
  The \<^verbatim>\<open>while\<close> loop over the stack of parent candidates; the head of the list is the top.
  A candidate that is popped loses the pointer that the stack held.
\<close>

fun link_to_parent :: "nat \<Rightarrow> nat list \<Rightarrow> State \<Rightarrow> nat list \<times> State" where
  "link_to_parent cur_node [] st = ([], st)"
| "link_to_parent cur_node (parent_node # rest) st =
     (if IsNested (GetEvent st cur_node) (GetEvent st parent_node)
      then (parent_node # rest, SetParent cur_node parent_node (AddChild parent_node cur_node st))
      else link_to_parent cur_node rest (release [parent_node] st))"

text \<open>\<^verbatim>\<open>(*event_node_map)[type].push_back(node)\<close>: the bucket is created when absent.\<close>

definition index_push_back :: "EventNodeMap \<Rightarrow> HostEventType \<Rightarrow> nat \<Rightarrow> EventNodeMap" where
  "index_push_back m t n = m(t \<mapsto> (case m t of Some l \<Rightarrow> l | None \<Rightarrow> []) @ [n])"

definition contains :: "EventNodeMap \<Rightarrow> HostEventType \<Rightarrow> bool" where
  "contains m t = (case m t of Some bucket \<Rightarrow> True | None \<Rightarrow> False)"

definition new_node :: "XPlaneVisitor \<Rightarrow> event_ref \<Rightarrow> EventNode" where
  "new_node visitor r =
     \<lparr>node_visitor = visitor, node_event = r, node_parent = None, node_children = [], node_group_id = None\<rparr>"

text \<open>The body of the loop over the events of a line.\<close>

definition ConnectIntraThread_event ::
  "XPlaneVisitor \<Rightarrow> event_ref \<Rightarrow> nat list \<times> State \<times> EventNodeMap \<Rightarrow> nat list \<times> State \<times> EventNodeMap" where
  "ConnectIntraThread_event visitor r acc =
     (case acc of (parent_nodes, st, event_node_map) \<Rightarrow>
       (let cur_node = length (nodes st);
            st1 = st\<lparr>nodes := nodes st @ [new_node visitor r],
                     use_counts := use_counts st @ [1]\<rparr>;
            (parent_nodes1, st2) = link_to_parent cur_node parent_nodes st1;
            event = get_event (planes st) r;
            event_type = (case GetEventType visitor event of
                            Some t \<Rightarrow> t | None \<Rightarrow> kUnknownHostEventType);
            enm1 = (case event_node_map event_type of
                      Some bucket \<Rightarrow> event_node_map(event_type \<mapsto> bucket @ [cur_node])
                    | None \<Rightarrow> event_node_map);
            st3 = (case event_node_map event_type of
                     Some bucket \<Rightarrow> retain cur_node st2
                   | None \<Rightarrow> st2);
            enm2 = (if contains enm1 kKernelLaunch \<or> contains enm1 kKernelExecute
                    then (case GetKernelEventType visitor event of
                            Some kernel_event_type \<Rightarrow>
                              index_push_back enm1 kernel_event_type cur_node
                          | None \<Rightarrow> enm1)
                    else enm1);
            st4 = (if contains enm1 kKernelLaunch \<or> contains enm1 kKernelExecute
                   then (case GetKernelEventType visitor event of
                           Some kernel_event_type \<Rightarrow> retain cur_node st3
                         | None \<Rightarrow> st3)
                   else st3)
        in (cur_node # parent_nodes1, st4, enm2)))"

text \<open>
  The body of the loop over the lines. The stack is a local of the body: at the end of
  the line its entries are destroyed, from the bottom to the top.
\<close>

definition ConnectIntraThread_line ::
  "XPlaneVisitor \<Rightarrow> nat \<Rightarrow> nat \<Rightarrow> State \<times> EventNodeMap \<Rightarrow> State \<times> EventNodeMap" where
  "ConnectIntraThread_line visitor p l acc =
     (case fold (\<lambda>e. ConnectIntraThread_event visitor (p, l, e))
             [0..<length (events (lines (planes (fst acc) ! p) ! l))] ([], acc) of
        (parent_nodes, st, event_node_map) \<Rightarrow> (release (rev parent_nodes) st, event_node_map))"

definition ConnectIntraThread ::
  "XPlaneVisitor \<Rightarrow> nat \<Rightarrow> State \<times> EventNodeMap \<Rightarrow> State \<times> EventNodeMap" where
  "ConnectIntraThread visitor p acc =
     fold (ConnectIntraThread_line visitor p) [0..<length (lines (planes (fst acc) ! p))] acc"

section \<open>The inter-thread pass\<close>

text \<open>
  The inner loop that resolves the key of a candidate: it stops at the first stat type
  that does not resolve (\<^verbatim>\<open>break\<close>), and the caller compares the sizes.
\<close>

definition stat_key_value :: "XStat \<Rightarrow> int64" where
  "stat_key_value stat = (if is_int64_value stat then int64_value stat else uint64_value stat)"

fun collect_stats ::
  "nat \<Rightarrow> State \<Rightarrow> nat \<Rightarrow> StatType list \<Rightarrow> int64 list \<Rightarrow> (error + int64 list) option" where
  "collect_stats fuel st n [] acc = Some (Inr acc)"
| "collect_stats fuel st n (stat_type # ts) acc =
     (case GetContextStat fuel st n stat_type of
        None \<Rightarrow> None
      | Some (Inl e) \<Rightarrow> Some (Inl e)
      | Some (Inr None) \<Rightarrow> Some (Inr acc)
      | Some (Inr (Some stat)) \<Rightarrow>
          collect_stats fuel st n ts
            (acc @ [stat_key_value stat]))"

type_synonym ConnectMap = "int64 list \<rightharpoonup> nat"

fun build_connect_map ::
  "nat \<Rightarrow> State \<Rightarrow> StatType list \<Rightarrow> nat list \<Rightarrow> ConnectMap \<Rightarrow> (error + ConnectMap) option" where
  "build_connect_map fuel st ts [] connect_map = Some (Inr connect_map)"
| "build_connect_map fuel st ts (parent_event_node # ns) connect_map =
     (case collect_stats fuel st parent_event_node ts [] of
        None \<Rightarrow> None
      | Some (Inl e) \<Rightarrow> Some (Inl e)
      | Some (Inr key) \<Rightarrow>
          build_connect_map fuel st ts ns
            (if length key = length ts then connect_map(key \<mapsto> parent_event_node)
             else connect_map))"

definition connect_child ::
  "nat \<Rightarrow> StatType list \<Rightarrow> ConnectMap \<Rightarrow> nat \<Rightarrow> State \<Rightarrow> (error + State) option" where
  "connect_child fuel ts connect_map child_event_node st =
     (case collect_stats fuel st child_event_node ts [] of
        None \<Rightarrow> None
      | Some (Inl e) \<Rightarrow> Some (Inl e)
      | Some (Inr key) \<Rightarrow>
          if length key = length ts
          then (case connect_map key of
                  Some parent_event_node \<Rightarrow>
                    Some (Inr (SetParent child_event_node parent_event_node
                                 (AddChild parent_event_node child_event_node st)))
                | None \<Rightarrow> Some (Inr st))
          else Some (Inr st))"

fun connect_children ::
  "nat \<Rightarrow> StatType list \<Rightarrow> ConnectMap \<Rightarrow> nat list \<Rightarrow> State \<Rightarrow> (error + State) option" where
  "connect_children fuel ts connect_map [] st = Some (Inr st)"
| "connect_children fuel ts connect_map (child_event_node # cs) st =
     (case connect_child fuel ts connect_map child_event_node st of
        None \<Rightarrow> None
      | Some (Inl e) \<Rightarrow> Some (Inl e)
      | Some (Inr st') \<Rightarrow> connect_children fuel ts connect_map cs st')"

text \<open>The body of the loop over the rules.\<close>

definition ConnectInterThread_rule ::
  "nat \<Rightarrow> EventNodeMap \<Rightarrow> InterThreadConnectInfo \<Rightarrow> State \<Rightarrow> (error + State) option" where
  "ConnectInterThread_rule fuel event_node_map connect_info st =
     (case (case event_node_map (parent_event_type connect_info) of
              Some parent_event_node_list \<Rightarrow>
                build_connect_map fuel st (connect_stat_types connect_info)
                  parent_event_node_list Map.empty
            | None \<Rightarrow> Some (Inr Map.empty)) of
        None \<Rightarrow> None
      | Some (Inl e) \<Rightarrow> Some (Inl e)
      | Some (Inr connect_map) \<Rightarrow>
          (case event_node_map (child_event_type connect_info) of
             Some child_event_node_list \<Rightarrow>
               connect_children fuel (connect_stat_types connect_info) connect_map
                 child_event_node_list st
           | None \<Rightarrow> Some (Inr st)))"

fun ConnectInterThread ::
  "nat \<Rightarrow> EventNodeMap \<Rightarrow> InterThreadConnectInfo list \<Rightarrow> State \<Rightarrow> (error + State) option" where
  "ConnectInterThread fuel event_node_map [] st = Some (Inr st)"
| "ConnectInterThread fuel event_node_map (connect_info # rest) st =
     (case ConnectInterThread_rule fuel event_node_map connect_info st of
        None \<Rightarrow> None
      | Some (Inl e) \<Rightarrow> Some (Inl e)
      | Some (Inr st') \<Rightarrow> ConnectInterThread fuel event_node_map rest st')"

section \<open>Group assignment\<close>

type_synonym EventGroupNameMap = "int64 \<rightharpoonup> string"

text \<open>
  The body of the loop over the nodes of a root bucket. The state of the loops is the
  next group id, the store and the name table.
\<close>

definition CreateEventGroup_root ::
  "nat \<Rightarrow> HostEventType \<Rightarrow> nat \<Rightarrow> int64 \<times> State \<times> EventGroupNameMap
     \<Rightarrow> (error + int64 \<times> State \<times> EventGroupNameMap) option" where
  "CreateEventGroup_root fuel root_event_type root_event_node acc =
     (case acc of (next_group_id, st, event_group_name_map) \<Rightarrow>
        if node_group_id (nodes st ! root_event_node) \<noteq> None then Some (Inr acc)
        else
          (case PropagateGroupId fuel next_group_id root_event_node st of
             None \<Rightarrow> None
           | Some st1 \<Rightarrow>
          (case GetGroupName fuel st1 root_event_node of
             None \<Rightarrow> None
           | Some (Inl e) \<Rightarrow> Some (Inl e)
           | Some (Inr name) \<Rightarrow>
               if root_event_type = kTraceContext
               then (case AddStepName name root_event_node st1 of
                       Inl e \<Rightarrow> Some (Inl e)
                     | Inr st2 \<Rightarrow>
                         Some (Inr (next_group_id + 1, st2,
                                    event_group_name_map(next_group_id \<mapsto> name))))
               else Some (Inr (next_group_id + 1, st1,
                               event_group_name_map(next_group_id \<mapsto> name))))))"

fun CreateEventGroup_bucket ::
  "nat \<Rightarrow> HostEventType \<Rightarrow> nat list \<Rightarrow> int64 \<times> State \<times> EventGroupNameMap
     \<Rightarrow> (error + int64 \<times> State \<times> EventGroupNameMap) option" where
  "CreateEventGroup_bucket fuel root_event_type [] acc = Some (Inr acc)"
| "CreateEventGroup_bucket fuel root_event_type (root_event_node # rest) acc =
     (case CreateEventGroup_root fuel root_event_type root_event_node acc of
        None \<Rightarrow> None
      | Some (Inl e) \<Rightarrow> Some (Inl e)
      | Some (Inr acc') \<Rightarrow> CreateEventGroup_bucket fuel root_event_type rest acc')"

fun CreateEventGroup_types ::
  "nat \<Rightarrow> EventNodeMap \<Rightarrow> HostEventType list \<Rightarrow> int64 \<times> State \<times> EventGroupNameMap
     \<Rightarrow> (error + int64 \<times> State \<times> EventGroupNameMap) option" where
  "CreateEventGroup_types fuel event_node_map [] acc = Some (Inr acc)"
| "CreateEventGroup_types fuel event_node_map (root_event_type # rest) acc =
     (case event_node_map root_event_type of
        None \<Rightarrow> CreateEventGroup_types fuel event_node_map rest acc
      | Some root_event_node_list \<Rightarrow>
          (case CreateEventGroup_bucket fuel root_event_type root_event_node_list acc of
             None \<Rightarrow> None
           | Some (Inl e) \<Rightarrow> Some (Inl e)
           | Some (Inr acc') \<Rightarrow> CreateEventGroup_types fuel event_node_map rest acc'))"

definition CreateEventGroup ::
  "nat \<Rightarrow> HostEventType list \<Rightarrow> EventNodeMap \<Rightarrow> State \<Rightarrow> EventGroupNameMap
     \<Rightarrow> (error + State \<times> EventGroupNameMap) option" where
  "CreateEventGroup fuel root_event_types event_node_map st event_group_name_map =
     (case CreateEventGroup_types fuel event_node_map root_event_types
             (0, st, event_group_name_map) of
        None \<Rightarrow> None
      | Some (Inl e) \<Rightarrow> Some (Inl e)
      | Some (Inr (next_group_id, st', names)) \<Rightarrow> Some (Inr (st', names)))"

section \<open>The entry points\<close>

text \<open>
  The intra-thread passes of \<^verbatim>\<open>GroupEvents\<close>: the host plane (index 0) first, then each
  device plane in order, each with the visitor of its plane.
\<close>

definition ConnectIntraThread_planes :: "State \<times> EventNodeMap \<Rightarrow> State \<times> EventNodeMap" where
  "ConnectIntraThread_planes acc =
     fold (\<lambda>p acc'. ConnectIntraThread (CreateTfXPlaneVisitor (planes (fst acc') ! p)) p acc')
       [0..<length (planes (fst acc))] acc"

text \<open>
  The two linking passes of \<^verbatim>\<open>GroupEvents\<close> from an empty store; the result is the store
  and the index. The first argument, here and in the entry points, is the bound on the
  depth of the recursions of \<open>GetContextStat\<close> and \<open>PropagateGroupId\<close>; the result \<open>None\<close>
  says that the bound was reached.
\<close>

definition link_planes ::
  "nat \<Rightarrow> InterThreadConnectInfo list \<Rightarrow> HostEventType list \<Rightarrow> XPlane \<Rightarrow> XPlane list
     \<Rightarrow> (error + State \<times> EventNodeMap) option" where
  "link_planes fuel connect_info_list root_event_types host_trace device_traces =
     (let event_node_map = CreateEventNodeMap connect_info_list root_event_types;
          acc = ConnectIntraThread_planes
                  (\<lparr>planes = host_trace # device_traces, nodes = [], use_counts = []\<rparr>,
                   event_node_map)
      in (case ConnectInterThread fuel (snd acc) connect_info_list (fst acc) of
            None \<Rightarrow> None
          | Some (Inl e) \<Rightarrow> Some (Inl e)
          | Some (Inr st) \<Rightarrow> Some (Inr (st, snd acc))))"

text \<open>
  \<^verbatim>\<open>GroupEvents\<close> without the test for a null host plane: the result is the final store
  (the planes with the stats written, and the nodes) and the name table.
\<close>

definition GroupEvents_store ::
  "nat \<Rightarrow> InterThreadConnectInfo list \<Rightarrow> HostEventType list \<Rightarrow> XPlane \<Rightarrow> XPlane list
     \<Rightarrow> EventGroupNameMap \<Rightarrow> (error + State \<times> EventGroupNameMap) option" where
  "GroupEvents_store fuel connect_info_list root_event_types host_trace device_traces
       event_group_name_map =
     (case link_planes fuel connect_info_list root_event_types host_trace device_traces of
        None \<Rightarrow> None
      | Some (Inl e) \<Rightarrow> Some (Inl e)
      | Some (Inr (st, event_node_map)) \<Rightarrow>
          CreateEventGroup fuel root_event_types event_node_map st event_group_name_map)"

text \<open>
  \<^verbatim>\<open>GroupEvents\<close>: the host plane is a pointer that may be null; the out-parameter
  \<^verbatim>\<open>event_group_name_map\<close> is passed in and returned. The result is the host plane, the
  device planes and the name table after the call.
\<close>

definition GroupEvents ::
  "nat \<Rightarrow> InterThreadConnectInfo list \<Rightarrow> HostEventType list \<Rightarrow> XPlane option \<Rightarrow> XPlane list
     \<Rightarrow> EventGroupNameMap
     \<Rightarrow> (error + XPlane option \<times> XPlane list \<times> EventGroupNameMap) option" where
  "GroupEvents fuel connect_info_list root_event_types host_trace device_traces
       event_group_name_map =
     (case host_trace of
        None \<Rightarrow> Some (Inr (None, device_traces, event_group_name_map))
      | Some host \<Rightarrow>
          (case GroupEvents_store fuel connect_info_list root_event_types host device_traces
                  event_group_name_map of
             None \<Rightarrow> None
           | Some (Inl e) \<Rightarrow> Some (Inl e)
           | Some (Inr (st, names)) \<Rightarrow>
               Some (Inr (Some (hd (planes st)), tl (planes st), names))))"

definition tf_connect_info_list :: "InterThreadConnectInfo list" where
  "tf_connect_info_list =
     [\<lparr>parent_event_type = kFunctionRun, child_event_type = kExecutorStateProcess,
       connect_stat_types = [kStepId]\<rparr>,
      \<lparr>parent_event_type = kSessionRun, child_event_type = kExecutorStateProcess,
       connect_stat_types = [kStepId]\<rparr>,
      \<lparr>parent_event_type = kKernelLaunch, child_event_type = kKernelExecute,
       connect_stat_types = [kCorrelationId]\<rparr>]"

definition tf_root_event_types :: "HostEventType list" where
  "tf_root_event_types = [kTraceContext, kFunctionRun, kSessionRun]"

definition GroupTfEvents ::
  "nat \<Rightarrow> XPlane option \<Rightarrow> XPlane list \<Rightarrow> EventGroupNameMap
     \<Rightarrow> (error + XPlane option \<times> XPlane list \<times> EventGroupNameMap) option" where
  "GroupTfEvents fuel host_trace device_traces event_group_name_map =
     GroupEvents fuel tf_connect_info_list tf_root_event_types host_trace device_traces
       event_group_name_map"

section \<open>Specification-level definitions\<close>

text \<open>
  The name of a group as the specification words it: the graph type, when there is one,
  then the decimal form of step number plus iteration number, joined by one space.
\<close>

definition group_name :: "string option \<Rightarrow> int \<Rightarrow> int \<Rightarrow> string" where
  "group_name graph_type step_number iteration_number =
     (case graph_type of
        Some g \<Rightarrow> g @ '' '' @ decimal (step_number + iteration_number)
      | None \<Rightarrow> decimal (step_number + iteration_number))"

text \<open>A node is alive while a \<^verbatim>\<open>shared_ptr\<close> holds it.\<close>

definition alive :: "State \<Rightarrow> nat \<Rightarrow> bool" where
  "alive st n \<longleftrightarrow> n < length (use_counts st) \<and> 0 < use_counts st ! n"

text \<open>
  The ancestor chain of a node: the node itself and the nodes that the parent references
  lead to, at most \<open>k\<close> of them.
\<close>

fun ancestors :: "nat \<Rightarrow> State \<Rightarrow> nat \<Rightarrow> nat list" where
  "ancestors 0 st n = []"
| "ancestors (Suc k) st n =
     n # (case node_parent (nodes st ! n) of None \<Rightarrow> [] | Some p \<Rightarrow> ancestors k st p)"

text \<open>
  Following the parent references from the node reaches a node without a parent in fewer
  than \<open>k\<close> steps, and every node on the way is alive.
\<close>

fun safe_chain :: "nat \<Rightarrow> State \<Rightarrow> nat \<Rightarrow> bool" where
  "safe_chain 0 st n = False"
| "safe_chain (Suc k) st n =
     (case node_parent (nodes st ! n) of
        None \<Rightarrow> True
      | Some p \<Rightarrow> alive st p \<and> safe_chain k st p)"

text \<open>
  The context stat of a node as the specification words it: the stat of that type on the
  event of the node itself or, failing that, of its nearest ancestor that carries one.
\<close>

definition own_stat :: "State \<Rightarrow> StatType \<Rightarrow> nat \<Rightarrow> XStat option" where
  "own_stat st stat_type a = GetStat (node_visitor (nodes st ! a)) (GetEvent st a) stat_type"

fun first_stat :: "State \<Rightarrow> StatType \<Rightarrow> nat list \<Rightarrow> XStat option" where
  "first_stat st stat_type [] = None"
| "first_stat st stat_type (a # as) =
     (case own_stat st stat_type a of
        Some stat \<Rightarrow> Some stat
      | None \<Rightarrow> first_stat st stat_type as)"

definition context_stat :: "nat \<Rightarrow> State \<Rightarrow> nat \<Rightarrow> StatType \<Rightarrow> XStat option" where
  "context_stat k st n stat_type = first_stat st stat_type (ancestors k st n)"

text \<open>
  The correlation key of a candidate as the specification words it: the tuple of the
  values of the key attributes, present only if every key attribute resolves.
\<close>

fun full_key :: "nat \<Rightarrow> State \<Rightarrow> nat \<Rightarrow> StatType list \<Rightarrow> int64 list option" where
  "full_key k st n [] = Some []"
| "full_key k st n (stat_type # ts) =
     (case context_stat k st n stat_type of
        Some stat \<Rightarrow> map_option (Cons (stat_key_value stat)) (full_key k st n ts)
      | None \<Rightarrow> None)"

text \<open>The key map of a rule as the specification words it: last write wins.\<close>

definition key_map :: "nat \<Rightarrow> State \<Rightarrow> StatType list \<Rightarrow> nat list \<Rightarrow> ConnectMap" where
  "key_map k st ts ps key = find (\<lambda>p. full_key k st p ts = Some key) (rev ps)"

text \<open>
  The step of a rule for one child candidate as the specification words it: the
  candidate is linked under the parent that the map holds for its key, and is left as it
  is when its key does not resolve fully or is not in the map.
\<close>

definition link_child :: "nat \<Rightarrow> StatType list \<Rightarrow> ConnectMap \<Rightarrow> nat \<Rightarrow> State \<Rightarrow> State" where
  "link_child k ts connect_map c st =
     (case full_key k st c ts of
        Some key \<Rightarrow>
          (case connect_map key of
             Some p \<Rightarrow> SetParent c p (AddChild p c st)
           | None \<Rightarrow> st)
      | None \<Rightarrow> st)"


text \<open>A bucket of the index; a bucket that the index does not have holds no node.\<close>

definition bucket_of :: "EventNodeMap \<Rightarrow> HostEventType \<Rightarrow> nat list" where
  "bucket_of event_node_map t = (case event_node_map t of Some bucket \<Rightarrow> bucket | None \<Rightarrow> [])"



text \<open>
  The nodes that \<^verbatim>\<open>PropagateGroupId\<close> visits from a node: the node itself and whatever
  the child lists lead to. \<open>children_reachable st cs m\<close>: \<open>m\<close> is visited from an entry
  of the list \<open>cs\<close>.
\<close>

inductive child_reachable :: "State \<Rightarrow> nat \<Rightarrow> nat \<Rightarrow> bool"
  and children_reachable :: "State \<Rightarrow> nat list \<Rightarrow> nat \<Rightarrow> bool"
  for st :: State where
  self: "n < length (nodes st) \<Longrightarrow> child_reachable st n n"
| child: "n < length (nodes st) \<Longrightarrow>
          children_reachable st (node_children (nodes st ! n)) m \<Longrightarrow> child_reachable st n m"
| first: "child_reachable st c m \<Longrightarrow> children_reachable st (c # cs) m"
| later: "children_reachable st cs m \<Longrightarrow> children_reachable st (c # cs) m"

code_pred child_reachable .





text \<open>A node whose parent reference points to a node that is alive.\<close>

definition parent_alive :: "State \<Rightarrow> nat \<Rightarrow> bool" where
  "parent_alive st n \<longleftrightarrow>
     (case node_parent (nodes st ! n) of None \<Rightarrow> False | Some p \<Rightarrow> alive st p)"

text \<open>
  The node reached from \<open>n\<close> by \<open>k\<close> parent references to nodes that are alive, if there
  are that many.
\<close>

fun ancestor_at :: "State \<Rightarrow> nat \<Rightarrow> nat \<Rightarrow> nat option" where
  "ancestor_at st 0 n = Some n"
| "ancestor_at st (Suc k) n =
     (case node_parent (nodes st ! n) of
        None \<Rightarrow> None
      | Some p \<Rightarrow> if alive st p then ancestor_at st k p else None)"

text \<open>
  The parent/child relation of a store is a forest: the parent of a node was created
  before the node and lists it as a child, every entry of a child list is a node whose
  parent reference is the owner of the list, and no child list has an entry twice.
\<close>

definition forest :: "State \<Rightarrow> bool" where
  "forest st \<longleftrightarrow>
     (\<forall>n<length (nodes st).
        (case node_parent (nodes st ! n) of
           None \<Rightarrow> True
         | Some p \<Rightarrow> p < n \<and> n \<in> set (node_children (nodes st ! p)))
        \<and> distinct (node_children (nodes st ! n))
        \<and> (\<forall>c\<in>set (node_children (nodes st ! n)).
              c < length (nodes st) \<and> node_parent (nodes st ! c) = Some n))"

text \<open>
  The forest of the nodes that are alive: the parent of a node was created before the
  node and, if it is still alive, lists the node as a child; every entry of a child list
  is a node that is alive and has the owner of the list as its parent; no child list has
  an entry twice.
\<close>

definition live_forest :: "State \<Rightarrow> bool" where
  "live_forest st \<longleftrightarrow>
     length (use_counts st) = length (nodes st) \<and>
     (\<forall>n<length (nodes st). alive st n \<longrightarrow>
        (case node_parent (nodes st ! n) of
           None \<Rightarrow> True
         | Some p \<Rightarrow> p < n \<and> (alive st p \<longrightarrow> n \<in> set (node_children (nodes st ! p))))
        \<and> distinct (node_children (nodes st ! n))
        \<and> (\<forall>c\<in>set (node_children (nodes st ! n)).
              c < length (nodes st) \<and> alive st c \<and> node_parent (nodes st ! c) = Some n))"

text \<open>
  What is left of it after the inter-thread pass: a parent that is alive lists the node,
  and every entry of a child list of a node that is alive is alive.
\<close>

definition live_listed :: "State \<Rightarrow> bool" where
  "live_listed st \<longleftrightarrow>
     length (use_counts st) = length (nodes st) \<and>
     (\<forall>n<length (nodes st). alive st n \<longrightarrow>
        (case node_parent (nodes st ! n) of
           None \<Rightarrow> True
         | Some p \<Rightarrow> p < length (nodes st) \<and>
                     (alive st p \<longrightarrow> n \<in> set (node_children (nodes st ! p))))
        \<and> (\<forall>c\<in>set (node_children (nodes st ! n)). c < length (nodes st) \<and> alive st c))"

text \<open>
  A later store keeps the links of a store: the same nodes are alive, and every child
  list has its former entries, in their place.
\<close>

definition links_kept :: "State \<Rightarrow> State \<Rightarrow> bool" where
  "links_kept st st' \<longleftrightarrow>
     length (nodes st') = length (nodes st) \<and>
     (\<forall>n<length (nodes st).
        alive st' n = alive st n \<and>
        take (length (node_children (nodes st ! n))) (node_children (nodes st' ! n))
          = node_children (nodes st ! n))"

text \<open>Every parent reference points to a node of the store that lists the node as a child.\<close>

definition parent_listed :: "State \<Rightarrow> bool" where
  "parent_listed st \<longleftrightarrow>
     (\<forall>n<length (nodes st).
        (case node_parent (nodes st ! n) of
           None \<Rightarrow> True
         | Some p \<Rightarrow> p < length (nodes st) \<and> n \<in> set (node_children (nodes st ! p))))"

text \<open>Every entry of every bucket of the index is a node of the store.\<close>

definition index_in_store :: "EventNodeMap \<Rightarrow> State \<Rightarrow> bool" where
  "index_in_store event_node_map st \<longleftrightarrow>
     (\<forall>t bucket. event_node_map t = Some bucket \<longrightarrow> (\<forall>n\<in>set bucket. n < length (nodes st)))"

text \<open>
  The use counts account for the holders of the nodes. A node is held by the index when
  a bucket has it, by its parent when the parent is alive (the parent lists it), by the
  stack of the line, and by the pointers that are about to be destroyed; its use count is
  at least the number of these.
\<close>

definition indexed :: "EventNodeMap \<Rightarrow> nat \<Rightarrow> bool" where
  "indexed event_node_map n \<longleftrightarrow> (\<exists>t bucket. event_node_map t = Some bucket \<and> n \<in> set bucket)"

definition holders :: "EventNodeMap \<Rightarrow> nat list \<Rightarrow> nat list \<Rightarrow> State \<Rightarrow> nat \<Rightarrow> nat" where
  "holders event_node_map stack dropped st n =
     (if indexed event_node_map n then 1 else 0)
     + (if parent_alive st n then 1 else 0)
     + count_list stack n + count_list dropped n"

definition counted :: "EventNodeMap \<Rightarrow> nat list \<Rightarrow> nat list \<Rightarrow> State \<Rightarrow> bool" where
  "counted event_node_map stack dropped st \<longleftrightarrow>
     length (use_counts st) = length (nodes st) \<and>
     (\<forall>n<length (nodes st). holders event_node_map stack dropped st n \<le> use_counts st ! n)"

text \<open>
  The stack of the intra-thread pass as a chain: each entry has the entry below it as
  its parent.
\<close>

fun chain :: "State \<Rightarrow> nat list \<Rightarrow> bool" where
  "chain st [] = True"
| "chain st [a] = True"
| "chain st (a # b # r) =
     (a < length (nodes st) \<and> node_parent (nodes st ! a) = Some b \<and> chain st (b # r))"

text \<open>
  A line whose events are ordered and properly nested: no event is empty, and every
  event is either nested in an earlier event or starts when that event has ended.
\<close>

definition well_nested :: "XEvent list \<Rightarrow> bool" where
  "well_nested evs \<longleftrightarrow>
     (\<forall>b<length evs. 0 < duration_ps (evs ! b) \<and>
        (\<forall>a<b. IsNested (evs ! b) (evs ! a) \<or>
               offset_ps (evs ! a) + duration_ps (evs ! a) \<le> offset_ps (evs ! b)))"


text \<open>The number of events on the lines of a plane before line \<open>l\<close>.\<close>

definition line_offset :: "XPlane \<Rightarrow> nat \<Rightarrow> nat" where
  "line_offset plane l = sum_list (map (\<lambda>line. length (events line)) (take l (lines plane)))"

text \<open>
  Relations between a store and a later store. \<open>group_step g\<close>: same nodes and child
  lists, and every group id is kept or has become \<open>g\<close>. \<open>old_kept\<close>: the planes, and the
  parent and event references of the nodes that were there, are kept.
\<close>

definition group_step :: "int64 \<Rightarrow> State \<Rightarrow> State \<Rightarrow> bool" where
  "group_step g st st' \<longleftrightarrow>
     length (nodes st') = length (nodes st) \<and>
     (\<forall>k<length (nodes st).
        node_children (nodes st' ! k) = node_children (nodes st ! k) \<and>
        (node_group_id (nodes st' ! k) = Some g \<or>
         node_group_id (nodes st' ! k) = node_group_id (nodes st ! k)))"

definition old_kept :: "State \<Rightarrow> State \<Rightarrow> bool" where
  "old_kept st st' \<longleftrightarrow>
     planes st' = planes st \<and> length (nodes st) \<le> length (nodes st') \<and>
     (\<forall>n<length (nodes st).
        node_parent (nodes st' ! n) = node_parent (nodes st ! n) \<and>
        node_event (nodes st' ! n) = node_event (nodes st ! n))"

text \<open>Every entry of a child list is a later node of the store.\<close>

definition children_up :: "State \<Rightarrow> bool" where
  "children_up st \<longleftrightarrow>
     (\<forall>n<length (nodes st). \<forall>c\<in>set (node_children (nodes st ! n)). n < c \<and> c < length (nodes st))"

text \<open>The store with the node that the loop body of the intra-thread pass creates.\<close>

definition add_node :: "XPlaneVisitor \<Rightarrow> event_ref \<Rightarrow> State \<Rightarrow> State" where
  "add_node visitor r st =
     st\<lparr>nodes := nodes st @ [new_node visitor r], use_counts := use_counts st @ [1]\<rparr>"

section \<open>Loop prefixes and invariants\<close>

text \<open>
  The loops of the intra-thread pass after a number of iterations, and what holds of
  their state then.
\<close>

text \<open>The loop over the events of a line, after \<open>n\<close> events.\<close>

definition line_loop ::
  "XPlaneVisitor \<Rightarrow> nat \<Rightarrow> nat \<Rightarrow> nat \<Rightarrow> State \<times> EventNodeMap \<Rightarrow> nat list \<times> State \<times> EventNodeMap" where
  "line_loop visitor p l n acc = fold (\<lambda>e. ConnectIntraThread_event visitor (p, l, e)) [0..<n] ([], acc)"

definition line_inv :: "nat \<Rightarrow> nat \<Rightarrow> State \<Rightarrow> nat \<Rightarrow> nat list \<times> State \<times> EventNodeMap \<Rightarrow> bool" where
  "line_inv p l st0 n acc \<longleftrightarrow>
     (case acc of (stack, st, enm) \<Rightarrow>
        old_kept st0 st \<and> length (nodes st) = length (nodes st0) + n \<and> forest st \<and>
        (\<forall>x\<in>set stack. length (nodes st0) \<le> x \<and> x < length (nodes st0) + n) \<and>
        chain st stack \<and>
        (\<forall>e<n. node_event (nodes st ! (length (nodes st0) + e)) = (p, l, e)))"


text \<open>The loop over the lines of a plane, after \<open>m\<close> lines.\<close>

definition plane_loop ::
  "XPlaneVisitor \<Rightarrow> nat \<Rightarrow> nat \<Rightarrow> State \<times> EventNodeMap \<Rightarrow> State \<times> EventNodeMap" where
  "plane_loop visitor p m acc = fold (ConnectIntraThread_line visitor p) [0..<m] acc"

text \<open>The loop over the planes, after \<open>m\<close> planes.\<close>

definition planes_loop :: "nat \<Rightarrow> State \<times> EventNodeMap \<Rightarrow> State \<times> EventNodeMap" where
  "planes_loop m acc =
     fold (\<lambda>p acc'. ConnectIntraThread (CreateTfXPlaneVisitor (planes (fst acc') ! p)) p acc')
       [0..<m] acc"

text \<open>What the inter-thread pass keeps of a store with \<open>n\<close> nodes.\<close>

definition inter_inv :: "EventNodeMap \<Rightarrow> State \<Rightarrow> State \<Rightarrow> bool" where
  "inter_inv event_node_map st0 st \<longleftrightarrow>
     parent_listed st \<and> links_kept st0 st \<and> length (use_counts st) = length (nodes st) \<and>
     (\<forall>n<length (nodes st). indexed event_node_map n \<longrightarrow> alive st n) \<and>
     (\<forall>n<length (nodes st). alive st n \<longrightarrow>
        (\<forall>c\<in>set (node_children (nodes st ! n)). c < length (nodes st) \<and> alive st c))"

section \<open>Concrete traces\<close>

text \<open>A schema that knows every stat type and event type the pass names.\<close>

definition tf_visitor :: XPlaneVisitor where
  "tf_visitor =
     \<lparr>stat_types = [(1, kStepId), (2, kCorrelationId), (3, kDeviceId), (4, kGraphType),
                     (5, kStepNum), (6, kIterNum), (7, kGroupId), (8, kStepName)],
      event_types = [(1, kTraceContext), (2, kSessionRun), (3, kFunctionRun),
                     (4, kExecutorStateProcess)],
      stat_metadata_ids = [(kStepId, 1), (kCorrelationId, 2), (kDeviceId, 3), (kGraphType, 4),
                           (kStepNum, 5), (kIterNum, 6), (kGroupId, 7), (kStepName, 8)]\<rparr>"

text \<open>The same schema without a slot for the step-name stat.\<close>

definition visitor_without_step_name :: XPlaneVisitor where
  "visitor_without_step_name =
     \<lparr>stat_types = [(1, kStepId), (2, kCorrelationId), (3, kDeviceId), (4, kGraphType),
                     (5, kStepNum), (6, kIterNum), (7, kGroupId)],
      event_types = [(1, kTraceContext), (2, kSessionRun), (3, kFunctionRun),
                     (4, kExecutorStateProcess)],
      stat_metadata_ids = [(kStepId, 1), (kCorrelationId, 2), (kDeviceId, 3), (kGraphType, 4),
                           (kStepNum, 5), (kIterNum, 6), (kGroupId, 7)]\<rparr>"

definition mk_event :: "int64 \<Rightarrow> int \<Rightarrow> int \<Rightarrow> (int64 \<times> StatValue) list \<Rightarrow> XEvent" where
  "mk_event type_id start duration kvs =
     \<lparr>event_metadata_id = type_id, offset_ps = start, duration_ps = duration,
      stats = map (\<lambda>(k, v). \<lparr>stat_metadata_id = k, stat_value = v\<rparr>) kvs\<rparr>"

definition mk_node :: "XPlaneVisitor \<Rightarrow> event_ref \<Rightarrow> nat option \<Rightarrow> nat list \<Rightarrow> int64 option \<Rightarrow> EventNode" where
  "mk_node visitor r parent children group_id =
     \<lparr>node_visitor = visitor, node_event = r, node_parent = parent, node_children = children,
      node_group_id = group_id\<rparr>"

text \<open>
  The end-to-end scenario: one host line with A over \<open>[0, 100)\<close> of type SessionRun and B
  over \<open>[10, 90)\<close> of type ExecutorStateProcess, both with step id 1.
\<close>

definition scenario_host :: XPlane where
  "scenario_host =
     \<lparr>lines = [\<lparr>events = [mk_event 2 0 100 [(1, Int64Value 1)],
                          mk_event 4 10 80 [(1, Int64Value 1)]]\<rparr>],
      schema = tf_visitor\<rparr>"

definition scenario_host_grouped :: XPlane where
  "scenario_host_grouped =
     \<lparr>lines = [\<lparr>events = [mk_event 2 0 100 [(1, Int64Value 1), (7, Int64Value 0)],
                          mk_event 4 10 80 [(1, Int64Value 1), (7, Int64Value 0)]]\<rparr>],
      schema = tf_visitor\<rparr>"

definition scenario_nodes :: "EventNode list" where
  "scenario_nodes =
     [mk_node tf_visitor (0, 0, 0) None [1] (Some 0),
      mk_node tf_visitor (0, 0, 1) (Some 0) [] (Some 0)]"

text \<open>A host plane with one TraceContext event and no slot for the step-name stat.\<close>

definition trace_context_host :: XPlane where
  "trace_context_host =
     \<lparr>lines = [\<lparr>events = [mk_event 1 0 100 [(5, Int64Value 3)]]\<rparr>],
      schema = visitor_without_step_name\<rparr>"

text \<open>
  Three nodes for the name format: an event with graph type "train" that encloses an
  event with step number 3 and iteration number 0, and an event with iteration number 5
  only. The index holds all of them.
\<close>

definition name_store :: State where
  "name_store =
     \<lparr>planes = [\<lparr>lines = [\<lparr>events =
          [mk_event 1 0 100 [(4, StrValue ''train'')],
           mk_event 1 10 80 [(5, Int64Value 3), (6, Int64Value 0)],
           mk_event 1 200 100 [(6, Int64Value 5)]]\<rparr>],
        schema = tf_visitor\<rparr>],
      nodes = [mk_node tf_visitor (0, 0, 0) None [1] None,
               mk_node tf_visitor (0, 0, 1) (Some 0) [] None,
               mk_node tf_visitor (0, 0, 2) None [] None],
      use_counts = [1, 2, 1]\<rparr>"

text \<open>A node whose step number 3 is stored as an unsigned integer.\<close>

definition unsigned_step_store :: State where
  "unsigned_step_store =
     \<lparr>planes = [\<lparr>lines = [\<lparr>events = [mk_event 1 0 100 [(5, Uint64Value 3)]]\<rparr>],
        schema = tf_visitor\<rparr>],
      nodes = [mk_node tf_visitor (0, 0, 0) None [] None],
      use_counts = [1]\<rparr>"





text \<open>
  A FunctionRun event inside a SessionRun event on one host line; both event types are
  root event types of \<^verbatim>\<open>GroupTfEvents\<close>.
\<close>

definition nested_roots_host :: XPlane where
  "nested_roots_host =
     \<lparr>lines = [\<lparr>events = [mk_event 2 0 100 [], mk_event 3 10 80 []]\<rparr>],
      schema = tf_visitor\<rparr>"

definition nested_roots_linked :: State where
  "nested_roots_linked =
     \<lparr>planes = [nested_roots_host],
      nodes = [mk_node tf_visitor (0, 0, 0) None [1] None,
               mk_node tf_visitor (0, 0, 1) (Some 0) [] None],
      use_counts = [1, 2]\<rparr>"

definition nested_roots_first :: State where
  "nested_roots_first =
     \<lparr>planes = [\<lparr>lines = [\<lparr>events = [mk_event 2 0 100 [],
                                     mk_event 3 10 80 [(7, Int64Value 0)]]\<rparr>],
                 schema = tf_visitor\<rparr>],
      nodes = [mk_node tf_visitor (0, 0, 0) None [1] None,
               mk_node tf_visitor (0, 0, 1) (Some 0) [] (Some 0)],
      use_counts = [1, 2]\<rparr>"

definition nested_roots_second :: State where
  "nested_roots_second =
     \<lparr>planes = [\<lparr>lines = [\<lparr>events = [mk_event 2 0 100 [(7, Int64Value 1)],
                                     mk_event 3 10 80 [(7, Int64Value 1)]]\<rparr>],
                 schema = tf_visitor\<rparr>],
      nodes = [mk_node tf_visitor (0, 0, 0) None [1] (Some 1),
               mk_node tf_visitor (0, 0, 1) (Some 0) [] (Some 1)],
      use_counts = [1, 2]\<rparr>"

text \<open>The first rule of \<^verbatim>\<open>GroupTfEvents\<close>.\<close>

definition function_run_rule :: InterThreadConnectInfo where
  "function_run_rule =
     \<lparr>parent_event_type = kFunctionRun, child_event_type = kExecutorStateProcess,
      connect_stat_types = [kStepId]\<rparr>"

text \<open>
  An ExecutorStateProcess event with step id 1 that encloses a FunctionRun event without
  a step id of its own, on one host line.
\<close>

definition cycle_host :: XPlane where
  "cycle_host =
     \<lparr>lines = [\<lparr>events = [mk_event 4 0 100 [(1, Int64Value 1)], mk_event 3 10 80 []]\<rparr>],
      schema = tf_visitor\<rparr>"

text \<open>
  An ExecutorStateProcess event with step id 1 inside a TraceContext event on one line,
  and a FunctionRun event with step id 1 on a second line.
\<close>

definition two_parents_host :: XPlane where
  "two_parents_host =
     \<lparr>lines = [\<lparr>events = [mk_event 1 0 100 [], mk_event 4 10 80 [(1, Int64Value 1)]]\<rparr>,
               \<lparr>events = [mk_event 3 0 100 [(1, Int64Value 1)]]\<rparr>],
      schema = tf_visitor\<rparr>"

text \<open>
  An event of a type that the schema does not know, with graph type "train", that
  encloses a SessionRun event with step number 3.
\<close>

definition dangling_host :: XPlane where
  "dangling_host =
     \<lparr>lines = [\<lparr>events = [mk_event 9 0 100 [(4, StrValue ''train'')],
                          mk_event 2 10 80 [(5, Int64Value 3)]]\<rparr>],
      schema = tf_visitor\<rparr>"


text \<open>
  The stores that the two linking passes produce for \<open>cycle_host\<close> and for
  \<open>two_parents_host\<close> with the first rule of \<^verbatim>\<open>GroupTfEvents\<close>.
\<close>

definition cycle_linked :: State where
  "cycle_linked =
     \<lparr>planes = [cycle_host],
      nodes = [mk_node tf_visitor (0, 0, 0) (Some 1) [1] None,
               mk_node tf_visitor (0, 0, 1) (Some 0) [0] None],
      use_counts = [2, 2]\<rparr>"

definition two_parents_linked :: State where
  "two_parents_linked =
     \<lparr>planes = [two_parents_host],
      nodes = [mk_node tf_visitor (0, 0, 0) None [1] None,
               mk_node tf_visitor (0, 0, 1) (Some 2) [] None,
               mk_node tf_visitor (0, 1, 0) None [1] None],
      use_counts = [1, 3, 1]\<rparr>"

section \<open>Evaluation and basic facts\<close>

lemmas model_defs =
  int64_value_def uint64_value_def str_value_def is_int64_value_def stat_key_value_def
  CreateTfXPlaneVisitor_def GetStatType_def GetEventType_def GetStatMetadataId_def
  IsNested_def AddOrUpdateIntStat_def AddOrUpdateStrStat_def GetKernelEventType_def
  GetStat_def SetGroupId_def try_emplace_def CreateEventNodeMap_def
  get_event_def update_event_def GetEvent_def retain_def release.simps AddChild_def SetParent_def
  decimal_def StrCat_def GetGroupName_def assign_group_id_def AddStepName_def
  index_push_back_def contains_def new_node_def ConnectIntraThread_event_def
  ConnectIntraThread_line_def ConnectIntraThread_def connect_child_def
  ConnectInterThread_rule_def CreateEventGroup_root_def CreateEventGroup_def
  ConnectIntraThread_planes_def link_planes_def GroupEvents_store_def GroupEvents_def
  tf_connect_info_list_def tf_root_event_types_def GroupTfEvents_def
  dec_nat.simps upt_rec Let_def

lemmas spec_defs =
  alive_def own_stat_def context_stat_def key_map_def link_child_def bucket_of_def

lemmas trace_defs =
  tf_visitor_def visitor_without_step_name_def mk_event_def mk_node_def


section \<open>The store under the intra-thread pass\<close>

lemma nth_update_at:
  "k < length xs \<Longrightarrow> (xs[n := f (xs ! n)]) ! k = (if n = k then f (xs ! k) else xs ! k)"
  by (cases "n = k") auto

lemma fold_upt_invariant:
  assumes "P 0 a" and "\<And>k x. k < n \<Longrightarrow> P k x \<Longrightarrow> P (Suc k) (f k x)"
  shows "P n (fold f [0..<n] a)"
proof -
  have "k \<le> n \<Longrightarrow> P k (fold f [0..<k] a)" for k
  proof (induction k)
    case 0
    with assms(1) show ?case by simp
  next
    case (Suc k)
    then show ?case using assms(2) [of k "fold f [0..<k] a"] by simp
  qed
  then show ?thesis by simp
qed

lemma release_store:
  "nodes (release dropped st) = nodes st \<and> planes (release dropped st) = planes st
   \<and> length (use_counts (release dropped st)) = length (use_counts st)"
proof (induction dropped st rule: release.induct)
  case (1 st)
  then show ?case by (simp add: release.simps)
next
  case (2 n ns st)
  show ?case
    by (subst release.simps)+ (use 2 in auto)
qed

lemma release_nodes: "nodes (release dropped st) = nodes st"
  using release_store by blast

lemma release_planes: "planes (release dropped st) = planes st"
  using release_store by blast

lemma release_length: "length (use_counts (release dropped st)) = length (use_counts st)"
  using release_store by blast

lemma retain_nodes: "nodes (retain n st) = nodes st"
  by (simp add: retain_def)

lemma retain_planes: "planes (retain n st) = planes st"
  by (simp add: retain_def)

lemma GetEvent_cong:
  "nodes st' = nodes st \<Longrightarrow> planes st' = planes st \<Longrightarrow> GetEvent st' n = GetEvent st n"
  by (simp add: GetEvent_def)

lemma forest_cong: "nodes st' = nodes st \<Longrightarrow> forest st' = forest st"
  by (simp add: forest_def cong: option.case_cong)

lemma old_kept_cong:
  "nodes st' = nodes x \<Longrightarrow> planes st' = planes x \<Longrightarrow> old_kept st st' = old_kept st x"
  by (simp add: old_kept_def)

lemma chain_cong: "nodes st' = nodes st \<Longrightarrow> chain st' s = chain st s"
  by (induction st s rule: chain.induct) simp_all

lemma old_kept_refl: "old_kept st st"
  by (simp add: old_kept_def)

lemma old_kept_trans: "old_kept st st' \<Longrightarrow> old_kept st' st'' \<Longrightarrow> old_kept st st''"
  by (simp add: old_kept_def)

lemma link_nodes:
  "nodes (SetParent cur q (AddChild q cur st)) =
     (nodes st)[q := (nodes st ! q)\<lparr>node_children := node_children (nodes st ! q) @ [cur]\<rparr>,
                cur := ((nodes st)[q := (nodes st ! q)\<lparr>node_children := node_children (nodes st ! q) @ [cur]\<rparr>] ! cur)
                          \<lparr>node_parent := Some q\<rparr>]"
  by (simp add: SetParent_def AddChild_def retain_def)

lemma link_planes_kept: "planes (SetParent cur q (AddChild q cur st)) = planes st"
  by (simp add: SetParent_def AddChild_def retain_def)

lemma link_nodes_cong:
  "nodes st' = nodes st \<Longrightarrow>
     nodes (SetParent cur q (AddChild q cur st')) = nodes (SetParent cur q (AddChild q cur st))"
  by (simp add: link_nodes)

lemma link_to_parent_cases:
  assumes "link_to_parent cur stack st = (stack', st')"
  shows "(stack' = [] \<and> nodes st' = nodes st \<and> planes st' = planes st
          \<and> (\<forall>q\<in>set stack. \<not> IsNested (GetEvent st cur) (GetEvent st q)))
       \<or> (\<exists>pre q rest. stack = pre @ q # rest \<and> stack' = q # rest
             \<and> nodes st' = nodes (SetParent cur q (AddChild q cur st)) \<and> planes st' = planes st
             \<and> IsNested (GetEvent st cur) (GetEvent st q)
             \<and> (\<forall>x\<in>set pre. \<not> IsNested (GetEvent st cur) (GetEvent st x)))"
  using assms
proof (induction stack arbitrary: st)
  case Nil
  then show ?case by simp
next
  case (Cons a stack)
  show ?case
  proof (cases "IsNested (GetEvent st cur) (GetEvent st a)")
    case True
    with Cons.prems have "stack' = a # stack" "st' = SetParent cur a (AddChild a cur st)"
      by simp_all
    with True have "a # stack = [] @ a # stack \<and> stack' = a # stack
             \<and> nodes st' = nodes (SetParent cur a (AddChild a cur st)) \<and> planes st' = planes st
             \<and> IsNested (GetEvent st cur) (GetEvent st a)
             \<and> (\<forall>x\<in>set []. \<not> IsNested (GetEvent st cur) (GetEvent st x))"
      by (simp add: link_planes_kept)
    then show ?thesis by blast
  next
    case False
    let ?st1 = "release [a] st"
    have n1: "nodes ?st1 = nodes st" and p1: "planes ?st1 = planes st"
      by (rule release_nodes, rule release_planes)
    note ge = GetEvent_cong [OF n1 p1]
    from False Cons.prems have "link_to_parent cur stack ?st1 = (stack', st')" by simp
    from Cons.IH [OF this] show ?thesis
    proof
      assume "stack' = [] \<and> nodes st' = nodes ?st1 \<and> planes st' = planes ?st1
          \<and> (\<forall>q\<in>set stack. \<not> IsNested (GetEvent ?st1 cur) (GetEvent ?st1 q))"
      with False show ?thesis by (simp add: ge n1 p1)
    next
      assume "\<exists>pre q rest. stack = pre @ q # rest \<and> stack' = q # rest
             \<and> nodes st' = nodes (SetParent cur q (AddChild q cur ?st1)) \<and> planes st' = planes ?st1
             \<and> IsNested (GetEvent ?st1 cur) (GetEvent ?st1 q)
             \<and> (\<forall>x\<in>set pre. \<not> IsNested (GetEvent ?st1 cur) (GetEvent ?st1 x))"
      then obtain pre q rest where h: "stack = pre @ q # rest" "stack' = q # rest"
             "nodes st' = nodes (SetParent cur q (AddChild q cur ?st1))" "planes st' = planes ?st1"
             "IsNested (GetEvent ?st1 cur) (GetEvent ?st1 q)"
             "\<forall>x\<in>set pre. \<not> IsNested (GetEvent ?st1 cur) (GetEvent ?st1 x)" by blast
      from h(3) have h3: "nodes st' = nodes (SetParent cur q (AddChild q cur st))"
        by (simp add: link_nodes_cong [OF n1])
      from h h3 False have "a # stack = (a # pre) @ q # rest \<and> stack' = q # rest
             \<and> nodes st' = nodes (SetParent cur q (AddChild q cur st)) \<and> planes st' = planes st
             \<and> IsNested (GetEvent st cur) (GetEvent st q)
             \<and> (\<forall>x\<in>set (a # pre). \<not> IsNested (GetEvent st cur) (GetEvent st x))"
        by (simp add: ge p1)
      then show ?thesis by blast
    qed
  qed
qed

lemma ConnectIntraThread_event_parts:
  "fst (ConnectIntraThread_event visitor r (stack, st, enm)) =
     length (nodes st) # fst (link_to_parent (length (nodes st)) stack (add_node visitor r st))
   \<and> nodes (fst (snd (ConnectIntraThread_event visitor r (stack, st, enm)))) =
     nodes (snd (link_to_parent (length (nodes st)) stack (add_node visitor r st)))
   \<and> planes (fst (snd (ConnectIntraThread_event visitor r (stack, st, enm)))) =
     planes (snd (link_to_parent (length (nodes st)) stack (add_node visitor r st)))"
  by (simp add: ConnectIntraThread_event_def add_node_def Let_def retain_nodes retain_planes
      split: prod.splits option.splits)

lemma add_node_length: "length (nodes (add_node visitor r st)) = Suc (length (nodes st))"
  by (simp add: add_node_def)

lemma add_node_old: "n < length (nodes st) \<Longrightarrow> nodes (add_node visitor r st) ! n = nodes st ! n"
  by (simp add: add_node_def nth_append)

lemma add_node_new: "nodes (add_node visitor r st) ! length (nodes st) = new_node visitor r"
  by (simp add: add_node_def)

lemma add_node_planes: "planes (add_node visitor r st) = planes st"
  by (simp add: add_node_def)

lemma forest_add_node:
  assumes f: "forest st"
  shows "forest (add_node visitor r st)"
  unfolding forest_def add_node_length
proof (intro allI impI)
  fix n assume "n < Suc (length (nodes st))"
  then consider (before) "n < length (nodes st)" | (fresh) "n = length (nodes st)" by linarith
  then show "(case node_parent (nodes (add_node visitor r st) ! n) of
           None \<Rightarrow> True
         | Some p \<Rightarrow> p < n \<and> n \<in> set (node_children (nodes (add_node visitor r st) ! p)))
        \<and> distinct (node_children (nodes (add_node visitor r st) ! n))
        \<and> (\<forall>c\<in>set (node_children (nodes (add_node visitor r st) ! n)).
              c < Suc (length (nodes st)) \<and> node_parent (nodes (add_node visitor r st) ! c) = Some n)"
  proof cases
    case before
    from f before have 1: "(case node_parent (nodes st ! n) of
           None \<Rightarrow> True
         | Some p \<Rightarrow> p < n \<and> n \<in> set (node_children (nodes st ! p)))"
      and 2: "distinct (node_children (nodes st ! n))"
      and 3: "\<forall>c\<in>set (node_children (nodes st ! n)).
              c < length (nodes st) \<and> node_parent (nodes st ! c) = Some n"
      unfolding forest_def by blast+
    have p1: "(case node_parent (nodes st ! n) of
           None \<Rightarrow> True
         | Some p \<Rightarrow> p < n \<and> n \<in> set (node_children (nodes (add_node visitor r st) ! p)))"
    proof (cases "node_parent (nodes st ! n)")
      case None
      then show ?thesis by simp
    next
      case (Some p')
      with 1 have "p' < n" "n \<in> set (node_children (nodes st ! p'))" by simp_all
      with before Some show ?thesis by (simp add: add_node_old)
    qed
    have p3: "\<forall>c\<in>set (node_children (nodes st ! n)).
              c < Suc (length (nodes st)) \<and> node_parent (nodes (add_node visitor r st) ! c) = Some n"
      using 3 by (auto simp: add_node_old)
    from p1 2 p3 before show ?thesis by (simp add: add_node_old)
  next
    case fresh
    then show ?thesis by (simp add: add_node_new new_node_def)
  qed
qed

lemma link_parent_nth:
  assumes "q < cur" "cur < length (nodes st)" "n < length (nodes st)"
  shows "node_parent (nodes (SetParent cur q (AddChild q cur st)) ! n) =
     (if n = cur then Some q else node_parent (nodes st ! n))"
  using assms by (auto simp: link_nodes nth_list_update)

lemma link_children_nth:
  assumes "q < cur" "cur < length (nodes st)" "n < length (nodes st)"
  shows "node_children (nodes (SetParent cur q (AddChild q cur st)) ! n) =
     (if n = q then node_children (nodes st ! q) @ [cur] else node_children (nodes st ! n))"
  using assms by (auto simp: link_nodes nth_list_update)

lemma link_event_nth:
  assumes "q < cur" "cur < length (nodes st)" "n < length (nodes st)"
  shows "node_event (nodes (SetParent cur q (AddChild q cur st)) ! n) = node_event (nodes st ! n)"
  using assms by (auto simp: link_nodes nth_list_update)

lemma link_length: "length (nodes (SetParent cur q (AddChild q cur st))) = length (nodes st)"
  by (simp add: SetParent_def AddChild_def retain_def)

lemma link_any_parent_nth:
  assumes "p < length (nodes st)" "c < length (nodes st)" "n < length (nodes st)"
  shows "node_parent (nodes (SetParent c p (AddChild p c st)) ! n) =
     (if n = c then Some p else node_parent (nodes st ! n))"
  using assms by (auto simp: link_nodes nth_list_update)

lemma link_any_children_nth:
  assumes "p < length (nodes st)" "c < length (nodes st)" "n < length (nodes st)"
  shows "node_children (nodes (SetParent c p (AddChild p c st)) ! n) =
     (if n = p then node_children (nodes st ! p) @ [c] else node_children (nodes st ! n))"
  using assms by (auto simp: link_nodes nth_list_update)

lemma forest_link:
  assumes f: "forest st" and q: "q < cur" and c: "Suc cur = length (nodes st)"
    and p: "node_parent (nodes st ! cur) = None"
    and ch: "node_children (nodes st ! cur) = []"
  shows "forest (SetParent cur q (AddChild q cur st))"
proof -
  let ?st' = "SetParent cur q (AddChild q cur st)"
  have cl: "cur < length (nodes st)" using c by simp
  have ql: "q < length (nodes st)" using q cl by simp
  note pn = link_parent_nth [OF q cl]
  note cn = link_children_nth [OF q cl]
  have old: "c' < length (nodes st) \<and> node_parent (nodes st ! c') = Some n \<and> c' \<noteq> cur"
    if "n < length (nodes st)" "c' \<in> set (node_children (nodes st ! n))" for n c'
  proof -
    from f that have "c' < length (nodes st) \<and> node_parent (nodes st ! c') = Some n"
      unfolding forest_def by blast
    with p show ?thesis by auto
  qed
  have dist: "distinct (node_children (nodes st ! n))" if "n < length (nodes st)" for n
    using f that unfolding forest_def by blast
  have par: "p' < n \<and> n \<in> set (node_children (nodes st ! p'))"
    if "n < length (nodes st)" "node_parent (nodes st ! n) = Some p'" for n p'
    using f that unfolding forest_def by fastforce
  show ?thesis
    unfolding forest_def link_length
  proof (intro allI impI conjI ballI)
    fix n assume n: "n < length (nodes st)"
    show "case node_parent (nodes ?st' ! n) of
           None \<Rightarrow> True
         | Some p \<Rightarrow> p < n \<and> n \<in> set (node_children (nodes ?st' ! p))"
    proof (cases "n = cur")
      case True
      with q cl ql show ?thesis by (simp add: pn cn)
    next
      case False
      show ?thesis
      proof (cases "node_parent (nodes st ! n)")
        case None
        with False n show ?thesis by (simp add: pn)
      next
        case (Some p')
        from par [OF n Some] have "p' < n" "n \<in> set (node_children (nodes st ! p'))" by simp_all
        moreover from this n have "p' < length (nodes st)" by simp
        ultimately show ?thesis using False n Some by (auto simp: pn cn)
      qed
    qed
  next
    fix n assume n: "n < length (nodes st)"
    show "distinct (node_children (nodes ?st' ! n))"
      using dist [OF n] old [OF n] n by (auto simp: cn)
  next
    fix n c' assume n: "n < length (nodes st)"
      and cin: "c' \<in> set (node_children (nodes ?st' ! n))"
    show "c' < length (nodes st)"
      using cin n old [OF n] cl by (auto simp: cn split: if_splits)
  next
    fix n c' assume n: "n < length (nodes st)"
      and cin: "c' \<in> set (node_children (nodes ?st' ! n))"
    show "node_parent (nodes ?st' ! c') = Some n"
    proof (cases "c' = cur")
      case True
      with cin n old [OF n] have "n = q" by (auto simp: cn split: if_splits)
      with True cl show ?thesis by (simp add: pn)
    next
      case False
      with cin n have "c' \<in> set (node_children (nodes st ! n))"
        by (auto simp: cn split: if_splits)
      from old [OF n this] False show ?thesis by (simp add: pn)
    qed
  qed
qed

lemma GetEvent_add_node_new:
  "GetEvent (add_node visitor r st) (length (nodes st)) = get_event (planes st) r"
  by (simp add: GetEvent_def add_node_new add_node_planes new_node_def)

lemma GetEvent_add_node_old:
  "x < length (nodes st) \<Longrightarrow> GetEvent (add_node visitor r st) x = GetEvent st x"
  by (simp add: GetEvent_def add_node_old add_node_planes)

text \<open>The two outcomes of the loop body: the stack is emptied, or a parent is found.\<close>

lemma ConnectIntraThread_event_cases:
  assumes e: "ConnectIntraThread_event visitor r (stack, st, enm) = (stack', st', enm')"
    and s: "\<forall>x\<in>set stack. x < length (nodes st)"
  obtains (emptied) "stack' = [length (nodes st)]" "nodes st' = nodes (add_node visitor r st)"
      "planes st' = planes st"
      "\<forall>x\<in>set stack. \<not> IsNested (get_event (planes st) r) (GetEvent st x)"
  | (linked) pre q rest where "stack = pre @ q # rest" "stack' = length (nodes st) # q # rest"
      "nodes st' = nodes (SetParent (length (nodes st)) q
                           (AddChild q (length (nodes st)) (add_node visitor r st)))"
      "planes st' = planes st"
      "IsNested (get_event (planes st) r) (GetEvent st q)"
      "\<forall>x\<in>set pre. \<not> IsNested (get_event (planes st) r) (GetEvent st x)"
proof -
  let ?cur = "length (nodes st)" and ?st1 = "add_node visitor r st"
  obtain s2 st2 where l: "link_to_parent ?cur stack ?st1 = (s2, st2)" by fastforce
  from e l have r: "stack' = ?cur # s2" "nodes st' = nodes st2" "planes st' = planes st2"
    using ConnectIntraThread_event_parts [of visitor r stack st enm] by simp_all
  from link_to_parent_cases [OF l] show ?thesis
  proof
    assume a: "s2 = [] \<and> nodes st2 = nodes ?st1 \<and> planes st2 = planes ?st1 \<and>
      (\<forall>q\<in>set stack. \<not> IsNested (GetEvent ?st1 ?cur) (GetEvent ?st1 q))"
    with s have "\<forall>x\<in>set stack. \<not> IsNested (get_event (planes st) r) (GetEvent st x)"
      by (simp add: GetEvent_add_node_new GetEvent_add_node_old)
    with a r show ?thesis by (intro emptied) (simp_all add: add_node_planes)
  next
    assume "\<exists>pre q rest. stack = pre @ q # rest \<and> s2 = q # rest
             \<and> nodes st2 = nodes (SetParent ?cur q (AddChild q ?cur ?st1))
             \<and> planes st2 = planes ?st1
             \<and> IsNested (GetEvent ?st1 ?cur) (GetEvent ?st1 q)
             \<and> (\<forall>x\<in>set pre. \<not> IsNested (GetEvent ?st1 ?cur) (GetEvent ?st1 x))"
    then obtain pre q rest where h: "stack = pre @ q # rest" "s2 = q # rest"
             "nodes st2 = nodes (SetParent ?cur q (AddChild q ?cur ?st1))"
             "planes st2 = planes ?st1"
             "IsNested (GetEvent ?st1 ?cur) (GetEvent ?st1 q)"
             "\<forall>x\<in>set pre. \<not> IsNested (GetEvent ?st1 ?cur) (GetEvent ?st1 x)" by blast
    from h(1) s have q: "q < ?cur" and p: "\<forall>x\<in>set pre. x < ?cur" by simp_all
    from h(5) q have 1: "IsNested (get_event (planes st) r) (GetEvent st q)"
      by (simp add: GetEvent_add_node_new GetEvent_add_node_old)
    from h(6) p have 2: "\<forall>x\<in>set pre. \<not> IsNested (get_event (planes st) r) (GetEvent st x)"
      by (simp add: GetEvent_add_node_new GetEvent_add_node_old)
    from h(1) r h(2,3,4) 1 2 show ?thesis by (intro linked) (simp_all add: add_node_planes)
  qed
qed

lemma old_kept_add_node: "old_kept st (add_node visitor r st)"
  by (simp add: old_kept_def add_node_planes add_node_length add_node_old)

lemma old_kept_add_link:
  assumes "q < length (nodes st)"
  shows "old_kept st (SetParent (length (nodes st)) q
           (AddChild q (length (nodes st)) (add_node visitor r st)))"
proof -
  let ?cur = "length (nodes st)" and ?st1 = "add_node visitor r st"
  have c: "?cur < length (nodes ?st1)" by (simp add: add_node_length)
  have "node_parent (nodes (SetParent ?cur q (AddChild q ?cur ?st1)) ! n) = node_parent (nodes st ! n)
      \<and> node_event (nodes (SetParent ?cur q (AddChild q ?cur ?st1)) ! n) = node_event (nodes st ! n)"
    if "n < ?cur" for n
  proof -
    from that have "n < length (nodes ?st1)" by (simp add: add_node_length)
    from link_parent_nth [OF assms c this] link_event_nth [OF assms c this] that
    show ?thesis by (simp add: add_node_old)
  qed
  then show ?thesis
    by (simp add: old_kept_def link_planes_kept link_length add_node_planes add_node_length)
qed

lemma chain_suffix: "chain st (pre @ s) \<Longrightarrow> chain st s"
proof (induction pre)
  case Nil
  then show ?case by simp
next
  case (Cons a pre)
  then show ?case by (cases "pre @ s") auto
qed

lemma chain_kept:
  assumes "old_kept st st'"
  shows "chain st s \<Longrightarrow> chain st' s"
proof (induction s)
  case Nil
  then show ?case by simp
next
  case (Cons a s)
  show ?case
  proof (cases s)
    case Nil
    then show ?thesis by simp
  next
    case (Cons b r)
    with Cons.prems Cons.IH assms show ?thesis by (auto simp: old_kept_def)
  qed
qed



text \<open>What one run of the loop body keeps and establishes.\<close>

lemma ConnectIntraThread_event_step:
  assumes e: "ConnectIntraThread_event visitor r (stack, st, enm) = (stack', st', enm')"
    and s: "\<forall>x\<in>set stack. x < length (nodes st)"
    and f: "forest st" and c: "chain st stack"
  shows "old_kept st st' \<and> length (nodes st') = Suc (length (nodes st))
    \<and> node_event (nodes st' ! length (nodes st)) = r
    \<and> forest st' \<and> chain st' stack'"
  using e s
proof (cases rule: ConnectIntraThread_event_cases)
  case emptied
  from emptied(2,3) have "old_kept st st' = old_kept st (add_node visitor r st)"
    by (intro old_kept_cong) (simp_all add: add_node_planes)
  moreover from emptied(2) have "forest st' = forest (add_node visitor r st)"
    by (rule forest_cong)
  ultimately show ?thesis using f emptied
    by (simp add: old_kept_add_node add_node_length add_node_new new_node_def forest_add_node)
next
  case (linked pre q rest)
  let ?cur = "length (nodes st)" and ?st1 = "add_node visitor r st"
  let ?x = "SetParent ?cur q (AddChild q ?cur ?st1)"
  from linked(1) s have q: "q < ?cur" by simp
  have cl: "?cur < length (nodes ?st1)" by (simp add: add_node_length)
  have px: "planes st' = planes ?x" using linked(4) by (simp add: link_planes_kept add_node_planes)
  have ok: "old_kept st st'"
    unfolding old_kept_cong [OF linked(3) px] by (rule old_kept_add_link [OF q])
  have len: "length (nodes st') = Suc ?cur" by (simp add: linked(3) link_length add_node_length)
  have ev: "node_event (nodes st' ! ?cur) = r"
    unfolding linked(3) using link_event_nth [OF q cl cl]
    by (simp add: add_node_new new_node_def)
  have fo: "forest st'"
    unfolding forest_cong [OF linked(3)]
    by (rule forest_link [OF forest_add_node [OF f] q])
       (simp_all add: add_node_length add_node_new new_node_def)
  have par: "node_parent (nodes st' ! ?cur) = Some q"
    unfolding linked(3) using link_parent_nth [OF q cl cl] by simp
  from c linked(1) have "chain st (q # rest)" using chain_suffix by blast
  then have "chain st' (q # rest)" by (rule chain_kept [OF ok])
  with par len have ch: "chain st' stack'" by (simp add: linked(2))
  from ok len ev fo ch show ?thesis by blast
qed

lemma index_in_store_mono:
  "index_in_store m st \<Longrightarrow> length (nodes st) \<le> length (nodes st') \<Longrightarrow> index_in_store m st'"
  unfolding index_in_store_def by (meson less_le_trans)

lemma index_in_store_upd:
  "index_in_store m st \<Longrightarrow> \<forall>n\<in>set l. n < length (nodes st) \<Longrightarrow> index_in_store (m(t \<mapsto> l)) st"
  by (auto simp: index_in_store_def)

lemma index_in_store_bucket:
  "index_in_store m st \<Longrightarrow> m t = Some l \<Longrightarrow> \<forall>n\<in>set l. n < length (nodes st)"
  by (auto simp: index_in_store_def)

lemma link_to_parent_length:
  "length (nodes (snd (link_to_parent cur stack st))) = length (nodes st)"
  by (induction stack arbitrary: st) (simp_all add: link_length release_nodes)

lemma ConnectIntraThread_event_length:
  "ConnectIntraThread_event visitor r (stack, st, enm) = (stack', st', enm')
     \<Longrightarrow> length (nodes st') = Suc (length (nodes st))"
  using ConnectIntraThread_event_parts [of visitor r stack st enm]
  by (simp add: link_to_parent_length add_node_length)

lemma index_in_store_event:
  assumes e: "ConnectIntraThread_event visitor r (stack, st, enm) = (stack', st', enm')"
    and ix: "index_in_store enm st"
  shows "index_in_store enm' st'"
proof -
  let ?cur = "length (nodes st)"
  note len = ConnectIntraThread_event_length [OF e]
  have ix': "index_in_store enm st'" using ix len by (simp add: index_in_store_mono)
  have cur: "?cur < length (nodes st')" using len by simp
  define t where "t = (case GetEventType visitor (get_event (planes st) r) of
                          Some t \<Rightarrow> t | None \<Rightarrow> kUnknownHostEventType)"
  define enm1 where "enm1 = (case enm t of Some bucket \<Rightarrow> enm(t \<mapsto> bucket @ [?cur])
                             | None \<Rightarrow> enm)"
  have 1: "index_in_store enm1 st'"
  proof (cases "enm t")
    case None
    with ix' show ?thesis by (simp add: enm1_def)
  next
    case (Some bucket)
    from index_in_store_bucket [OF ix' Some] cur
    have "\<forall>n\<in>set (bucket @ [?cur]). n < length (nodes st')" by simp
    from index_in_store_upd [OF ix' this] Some show ?thesis by (simp add: enm1_def)
  qed
  have 2: "index_in_store (index_push_back enm1 k ?cur) st'" for k
  proof -
    have "\<forall>n\<in>set ((case enm1 k of Some l \<Rightarrow> l | None \<Rightarrow> []) @ [?cur]). n < length (nodes st')"
    proof (cases "enm1 k")
      case None
      with cur show ?thesis by simp
    next
      case (Some l)
      from index_in_store_bucket [OF 1 Some] cur Some show ?thesis by simp
    qed
    from index_in_store_upd [OF 1 this] show ?thesis by (simp add: index_push_back_def)
  qed
  have "snd (snd (ConnectIntraThread_event visitor r (stack, st, enm))) =
           (if contains enm1 kKernelLaunch \<or> contains enm1 kKernelExecute
                    then (case GetKernelEventType visitor (get_event (planes st) r) of
                            Some kernel_event_type \<Rightarrow>
                              index_push_back enm1 kernel_event_type ?cur
                          | None \<Rightarrow> enm1)
                    else enm1)"
    unfolding ConnectIntraThread_event_def enm1_def t_def Let_def
    by (simp split: prod.splits)
  with e have "enm' = (if contains enm1 kKernelLaunch \<or> contains enm1 kKernelExecute
                    then (case GetKernelEventType visitor (get_event (planes st) r) of
                            Some kernel_event_type \<Rightarrow>
                              index_push_back enm1 kernel_event_type ?cur
                          | None \<Rightarrow> enm1)
                    else enm1)"
    by simp
  with 1 2 show ?thesis by (simp split: option.splits)
qed

lemma line_loop_0: "line_loop visitor p l 0 acc = ([], acc)"
  by (simp add: line_loop_def)

lemma line_loop_Suc:
  "line_loop visitor p l (Suc n) acc =
     ConnectIntraThread_event visitor (p, l, n) (line_loop visitor p l n acc)"
  by (simp add: line_loop_def)

lemma line_inv_step:
  assumes i: "line_inv p l st0 n (stack, st, enm)"
    and e: "ConnectIntraThread_event visitor (p, l, n) (stack, st, enm) = (stack', st', enm')"
  shows "line_inv p l st0 (Suc n) (stack', st', enm')"
proof -
  let ?b = "length (nodes st0)"
  from i have ok0: "old_kept st0 st" and len: "length (nodes st) = ?b + n" and f: "forest st"
    and sr: "\<forall>x\<in>set stack. ?b \<le> x \<and> x < ?b + n" and c: "chain st stack"
    and ev: "\<forall>e<n. node_event (nodes st ! (?b + e)) = (p, l, e)"
    by (simp_all add: line_inv_def)
  from sr len have s: "\<forall>x\<in>set stack. x < length (nodes st)" by simp
  from ConnectIntraThread_event_step [OF e s f c]
  have ok: "old_kept st st'" and len': "length (nodes st') = Suc (length (nodes st))"
    and evn: "node_event (nodes st' ! length (nodes st)) = (p, l, n)"
    and f': "forest st'" and c': "chain st' stack'" by simp_all
  from e s have "\<exists>s2. set s2 \<subseteq> set stack \<and> stack' = length (nodes st) # s2"
    by (cases rule: ConnectIntraThread_event_cases) auto
  then obtain s2 where s2: "set s2 \<subseteq> set stack" "stack' = length (nodes st) # s2" by blast
  have sr': "\<forall>x\<in>set stack'. ?b \<le> x \<and> x < ?b + Suc n"
  proof
    fix x assume "x \<in> set stack'"
    with s2 have "x = length (nodes st) \<or> x \<in> set stack" by auto
    with sr len show "?b \<le> x \<and> x < ?b + Suc n" by auto
  qed
  have ev': "\<forall>e<Suc n. node_event (nodes st' ! (?b + e)) = (p, l, e)"
  proof (intro allI impI)
    fix e assume "e < Suc n"
    then consider "e < n" | "e = n" by linarith
    then show "node_event (nodes st' ! (?b + e)) = (p, l, e)"
    proof cases
      case 1
      with ok len ev show ?thesis by (simp add: old_kept_def)
    next
      case 2
      with evn len show ?thesis by simp
    qed
  qed
  from old_kept_trans [OF ok0 ok] len len' f' sr' c' ev'
  show ?thesis by (simp add: line_inv_def)
qed

lemma line_inv_loop:
  assumes "forest st0"
  shows "line_inv p l st0 n (line_loop visitor p l n (st0, enm0))"
proof (induction n)
  case 0
  with assms show ?case by (simp add: line_loop_0 line_inv_def old_kept_refl)
next
  case (Suc n)
  obtain stack st enm where a: "line_loop visitor p l n (st0, enm0) = (stack, st, enm)"
    using prod_cases3 by blast
  obtain stack' st' enm' where
    e: "ConnectIntraThread_event visitor (p, l, n) (stack, st, enm) = (stack', st', enm')"
    using prod_cases3 by blast
  from line_inv_step [OF _ e] Suc a e show ?case by (simp add: line_loop_Suc)
qed

lemma index_in_store_line_loop:
  assumes "index_in_store enm0 st0"
  shows "index_in_store (snd (snd (line_loop visitor p l n (st0, enm0))))
           (fst (snd (line_loop visitor p l n (st0, enm0))))"
proof (induction n)
  case 0
  with assms show ?case by (simp add: line_loop_0)
next
  case (Suc n)
  obtain stack st enm where a: "line_loop visitor p l n (st0, enm0) = (stack, st, enm)"
    using prod_cases3 by blast
  obtain stack' st' enm' where
    e: "ConnectIntraThread_event visitor (p, l, n) (stack, st, enm) = (stack', st', enm')"
    using prod_cases3 by blast
  from index_in_store_event [OF e] Suc a e show ?case by (simp add: line_loop_Suc)
qed

lemma ConnectIntraThread_line_loop:
  "ConnectIntraThread_line visitor p l acc =
     (case line_loop visitor p l (length (events (lines (planes (fst acc) ! p) ! l))) acc of
        (stack, st, enm) \<Rightarrow> (release (rev stack) st, enm))"
  by (simp add: ConnectIntraThread_line_def line_loop_def)

lemma ConnectIntraThread_line_cases:
  assumes "ConnectIntraThread_line visitor p l (st, enm) = (st', enm')"
  obtains stack st1 where
    "line_loop visitor p l (length (events (lines (planes st ! p) ! l))) (st, enm) = (stack, st1, enm')"
    "st' = release (rev stack) st1" "nodes st' = nodes st1" "planes st' = planes st1"
proof -
  obtain stack st1 enm1 where
    l: "line_loop visitor p l (length (events (lines (planes st ! p) ! l))) (st, enm) = (stack, st1, enm1)"
    using prod_cases3 by blast
  with assms have "st' = release (rev stack) st1" "enm' = enm1"
    by (simp_all add: ConnectIntraThread_line_loop)
  with l show ?thesis by (intro that [of stack st1]) (simp_all add: release_nodes release_planes)
qed

text \<open>What the pass over one line keeps and establishes.\<close>

lemma ConnectIntraThread_line_step:
  assumes r: "ConnectIntraThread_line visitor p l (st, enm) = (st', enm')"
  shows "index_in_store enm st \<Longrightarrow> index_in_store enm' st'"
    and "forest st \<Longrightarrow> forest st' \<and> old_kept st st' \<and>
           length (nodes st') = length (nodes st) + length (events (lines (planes st ! p) ! l))"
proof -
  let ?n = "length (events (lines (planes st ! p) ! l))"
  from r obtain stack st1 where l: "line_loop visitor p l ?n (st, enm) = (stack, st1, enm')"
    and n: "nodes st' = nodes st1" and pl: "planes st' = planes st1"
    by (rule ConnectIntraThread_line_cases)
  show "index_in_store enm st \<Longrightarrow> index_in_store enm' st'"
    using index_in_store_line_loop [of enm st visitor p l ?n] l n
    by (simp add: index_in_store_def)
  show "forest st' \<and> old_kept st st' \<and> length (nodes st') = length (nodes st) + ?n"
    if "forest st"
    using line_inv_loop [OF that, of p l ?n visitor enm] l
    by (simp add: line_inv_def forest_cong [OF n] old_kept_cong [OF n pl] n)
qed

section \<open>Use counts under the intra-thread pass\<close>

text \<open>
  The use counts account for the holders of the nodes throughout the pass over a line:
  no node is destroyed while the index, a parent that is alive or the stack holds it.
\<close>

lemma count_list_distinct: "distinct xs \<Longrightarrow> x \<in> set xs \<Longrightarrow> count_list xs x = 1"
  by (induction xs) auto

lemma count_list_notin: "x \<notin> set xs \<Longrightarrow> count_list xs x = 0"
  by (induction xs) auto

lemma forest_child:
  assumes "forest st" "n < length (nodes st)" "c \<in> set (node_children (nodes st ! n))"
  shows "c < length (nodes st) \<and> node_parent (nodes st ! c) = Some n \<and> n < c"
proof -
  from assms have 1: "c < length (nodes st)" "node_parent (nodes st ! c) = Some n"
    unfolding forest_def by blast+
  from assms(1) 1 have "case node_parent (nodes st ! c) of None \<Rightarrow> True
         | Some p \<Rightarrow> p < c \<and> c \<in> set (node_children (nodes st ! p))"
    unfolding forest_def by blast
  with 1 show ?thesis by simp
qed

lemma forest_parent:
  assumes "forest st" "n < length (nodes st)" "node_parent (nodes st ! n) = Some q"
  shows "q < n \<and> n \<in> set (node_children (nodes st ! q))"
proof -
  from assms(1,2) have "case node_parent (nodes st ! n) of
           None \<Rightarrow> True
         | Some p \<Rightarrow> p < n \<and> n \<in> set (node_children (nodes st ! p))"
    unfolding forest_def by blast
  with assms(3) show ?thesis by simp
qed

lemma forest_distinct:
  "forest st \<Longrightarrow> n < length (nodes st) \<Longrightarrow> distinct (node_children (nodes st ! n))"
  unfolding forest_def by blast

lemma counted_holders:
  "counted enm stack dropped st \<Longrightarrow> n < length (nodes st) \<Longrightarrow>
     holders enm stack dropped st n \<le> use_counts st ! n"
  by (simp add: counted_def)

lemma counted_length: "counted enm stack dropped st \<Longrightarrow> length (use_counts st) = length (nodes st)"
  by (simp add: counted_def)

lemma release_destroy_counted:
  assumes f: "forest st" and c: "counted enm stack (n # ns) st"
    and n: "n < length (use_counts st)" and one: "use_counts st ! n = 1"
  shows "counted enm stack (node_children (nodes st ! n) @ ns)
           (st\<lparr>use_counts := (use_counts st)[n := 0]\<rparr>)"
proof -
  let ?st1 = "st\<lparr>use_counts := (use_counts st)[n := 0]\<rparr>"
  let ?ch = "node_children (nodes st ! n)"
  from c have len: "length (use_counts st) = length (nodes st)" by (rule counted_length)
  with n have nl: "n < length (nodes st)" by simp
  have al: "alive ?st1 p \<longleftrightarrow> alive st p \<and> p \<noteq> n" for p
    using n by (auto simp: alive_def nth_list_update)
  have pa: "parent_alive ?st1 m \<longleftrightarrow> parent_alive st m \<and> node_parent (nodes st ! m) \<noteq> Some n" for m
    by (auto simp: parent_alive_def al split: option.splits)
  have an: "alive st n" using n one by (simp add: alive_def)
  have "holders enm stack (?ch @ ns) ?st1 m \<le> use_counts ?st1 ! m" if m: "m < length (nodes st)" for m
  proof (cases "m = n")
    case True
    from counted_holders [OF c nl] one
    have h: "holders enm stack (n # ns) st n \<le> 1" by simp
    then have i: "\<not> indexed enm n" and s: "count_list stack n = 0" and d: "count_list ns n = 0"
      and p: "\<not> parent_alive st n"
      by (auto simp: holders_def split: if_splits)
    have "n \<notin> set ?ch" using forest_child [OF f nl, of n] by auto
    then have cc: "count_list ?ch n = 0" by (rule count_list_notin)
    from i s d cc p True show ?thesis by (simp add: holders_def pa)
  next
    case False
    from counted_holders [OF c m] False
    have h: "(if indexed enm m then 1 else 0) + (if parent_alive st m then 1 else 0)
      + count_list stack m + count_list ns m \<le> use_counts st ! m"
      by (simp add: holders_def)
    have k: "(if parent_alive ?st1 m then 1 else 0) + count_list ?ch m
      \<le> (if parent_alive st m then (1::nat) else 0)"
    proof (cases "m \<in> set ?ch")
      case True
      from forest_child [OF f nl True] have p: "node_parent (nodes st ! m) = Some n" by simp
      moreover from forest_distinct [OF f nl] True have "count_list ?ch m = 1"
        by (rule count_list_distinct)
      moreover from p an have "parent_alive st m" by (simp add: parent_alive_def)
      ultimately show ?thesis by (simp add: pa)
    next
      case False
      then have "count_list ?ch m = 0" by (rule count_list_notin)
      then show ?thesis by (simp add: pa)
    qed
    from h k False n show ?thesis by (simp add: holders_def)
  qed
  with len show ?thesis by (simp add: counted_def)
qed

lemma release_decrement_counted:
  assumes c: "counted enm stack (n # ns) st"
    and n: "n < length (use_counts st)" and more: "1 < use_counts st ! n"
  shows "counted enm stack ns (st\<lparr>use_counts := (use_counts st)[n := use_counts st ! n - 1]\<rparr>)"
proof -
  let ?st1 = "st\<lparr>use_counts := (use_counts st)[n := use_counts st ! n - 1]\<rparr>"
  from c have len: "length (use_counts st) = length (nodes st)" by (rule counted_length)
  have al: "alive ?st1 p \<longleftrightarrow> alive st p" for p
    using n more by (auto simp: alive_def nth_list_update)
  have pa: "parent_alive ?st1 m \<longleftrightarrow> parent_alive st m" for m
    using al by (auto simp: parent_alive_def split: option.splits)
  have "holders enm stack ns ?st1 m \<le> use_counts ?st1 ! m" if m: "m < length (nodes st)" for m
    using counted_holders [OF c m] n more
    using pa by (cases "m = n") (simp_all add: holders_def)
  with len show ?thesis by (simp add: counted_def)
qed

lemma release_skip_counted:
  assumes c: "counted enm stack (n # ns) st"
  shows "counted enm stack ns st"
proof -
  have "holders enm stack ns st m \<le> holders enm stack (n # ns) st m" for m
    by (simp add: holders_def)
  with c show ?thesis unfolding counted_def by (meson le_trans)
qed

lemma release_counted:
  "forest st \<Longrightarrow> counted enm stack dropped st \<Longrightarrow> counted enm stack [] (release dropped st)"
proof (induction dropped st rule: release.induct)
  case (1 st)
  then show ?case by (simp add: release.simps)
next
  case (2 n ns st)
  show ?case
  proof (cases "n < length (use_counts st) \<and> 0 < use_counts st ! n")
    case False
    have "release (n # ns) st = release ns st"
      by (subst release.simps) (simp only: False if_False)
    with "2.IH"(3) [OF False "2.prems"(1) release_skip_counted [OF "2.prems"(2)]]
    show ?thesis by simp
  next
    case True
    show ?thesis
    proof (cases "use_counts st ! n = 1")
      case one: True
      let ?st1 = "st\<lparr>use_counts := (use_counts st)[n := 0]\<rparr>"
      have f1: "forest ?st1" using "2.prems"(1) forest_cong [of ?st1 st] by simp
      from True one release_destroy_counted [OF "2.prems"(1,2)]
      have "counted enm stack (node_children (nodes st ! n) @ ns) ?st1" by simp
      moreover have "release (n # ns) st = release (node_children (nodes st ! n) @ ns) ?st1"
        using True one by (subst release.simps) simp
      ultimately show ?thesis using "2.IH"(1) [OF True one f1] by simp
    next
      case more: False
      let ?st1 = "st\<lparr>use_counts := (use_counts st)[n := use_counts st ! n - 1]\<rparr>"
      have f1: "forest ?st1" using "2.prems"(1) forest_cong [of ?st1 st] by simp
      from True more have "1 < use_counts st ! n" by simp
      with True release_decrement_counted [OF "2.prems"(2)]
      have "counted enm stack ns ?st1" by simp
      moreover have "release (n # ns) st = release ns ?st1"
        using True more by (subst release.simps) simp
      ultimately show ?thesis using "2.IH"(2) [OF True more f1] by simp
    qed
  qed
qed


lemma counted_stack_alive:
  "counted enm stack dropped st \<Longrightarrow> n < length (nodes st) \<Longrightarrow> n \<in> set stack \<Longrightarrow> alive st n"
proof -
  assume c: "counted enm stack dropped st" and n: "n < length (nodes st)" and s: "n \<in> set stack"
  from s have "count_list stack n \<noteq> 0" by (simp add: count_list_0_iff)
  then have "0 < count_list stack n" by simp
  with counted_holders [OF c n] have "0 < use_counts st ! n" by (simp add: holders_def)
  with n counted_length [OF c] show ?thesis by (simp add: alive_def)
qed

lemma counted_indexed_alive:
  "counted enm stack dropped st \<Longrightarrow> n < length (nodes st) \<Longrightarrow> indexed enm n \<Longrightarrow> alive st n"
proof -
  assume c: "counted enm stack dropped st" and n: "n < length (nodes st)" and s: "indexed enm n"
  with counted_holders [OF c n] have "0 < use_counts st ! n" by (simp add: holders_def)
  with n counted_length [OF c] show ?thesis by (simp add: alive_def)
qed

lemma counted_child_alive:
  "counted enm stack dropped st \<Longrightarrow> n < length (nodes st) \<Longrightarrow>
     node_parent (nodes st ! n) = Some p \<Longrightarrow> alive st p \<Longrightarrow> alive st n"
proof -
  assume c: "counted enm stack dropped st" and n: "n < length (nodes st)"
    and p: "node_parent (nodes st ! n) = Some p" "alive st p"
  then have "parent_alive st n" by (simp add: parent_alive_def)
  with counted_holders [OF c n] have "0 < use_counts st ! n" by (simp add: holders_def)
  with n counted_length [OF c] show ?thesis by (simp add: alive_def)
qed

lemma add_node_counted:
  assumes c: "counted enm stack [] st" and f: "forest st" and ix: "index_in_store enm st"
    and s: "\<forall>x\<in>set stack. x < length (nodes st)"
  shows "counted enm (length (nodes st) # stack) [] (add_node visitor r st)"
proof -
  let ?st1 = "add_node visitor r st" and ?c = "length (nodes st)"
  from c have len: "length (use_counts st) = length (nodes st)" by (rule counted_length)
  have al: "alive ?st1 p \<longleftrightarrow> alive st p" if "p < ?c" for p
    using that len by (simp add: alive_def add_node_def nth_append)
  have "holders enm (?c # stack) [] ?st1 m \<le> use_counts ?st1 ! m" if m: "m < Suc ?c" for m
  proof (cases "m = ?c")
    case True
    from ix have "\<not> indexed enm ?c" by (auto simp: indexed_def index_in_store_def)
    moreover from s have "count_list stack ?c = 0" by (auto intro: count_list_notin)
    moreover have "\<not> parent_alive ?st1 ?c"
      by (simp add: parent_alive_def add_node_new new_node_def)
    moreover have "use_counts ?st1 ! ?c = 1" using len by (simp add: add_node_def nth_append)
    ultimately show ?thesis using True by (simp add: holders_def)
  next
    case False
    with m have ml: "m < ?c" by simp
    have pa: "parent_alive ?st1 m \<longleftrightarrow> parent_alive st m"
    proof (cases "node_parent (nodes st ! m)")
      case None
      with ml show ?thesis by (simp add: parent_alive_def add_node_old)
    next
      case (Some p)
      from forest_parent [OF f ml Some] ml have "p < ?c" by simp
      from al [OF this] Some ml show ?thesis by (simp add: parent_alive_def add_node_old)
    qed
    have "use_counts ?st1 ! m = use_counts st ! m" using ml len by (simp add: add_node_def nth_append)
    with counted_holders [OF c ml] pa False show ?thesis by (simp add: holders_def)
  qed
  with len show ?thesis by (simp add: counted_def add_node_length) (simp add: add_node_def)
qed

lemma link_use_counts:
  "use_counts (SetParent c q (AddChild q c st)) = (use_counts st)[c := Suc (use_counts st ! c)]"
  by (simp add: SetParent_def AddChild_def retain_def)

lemma link_counted:
  assumes c: "counted enm stack [] st" and cl: "c < length (nodes st)" and ql: "q < length (nodes st)"
    and cs: "c \<in> set stack" and p: "node_parent (nodes st ! c) = None"
  shows "counted enm stack [] (SetParent c q (AddChild q c st))"
proof -
  let ?st1 = "SetParent c q (AddChild q c st)"
  from c have len: "length (use_counts st) = length (nodes st)" by (rule counted_length)
  from counted_stack_alive [OF c cl cs] have ac: "alive st c" .
  have al: "alive ?st1 x \<longleftrightarrow> alive st x" for x
    using ac by (auto simp: alive_def link_use_counts nth_list_update)
  note pn = link_any_parent_nth [OF ql cl]
  have "holders enm stack [] ?st1 m \<le> use_counts ?st1 ! m" if m: "m < length (nodes st)" for m
  proof (cases "m = c")
    case True
    from p have "\<not> parent_alive st c" by (simp add: parent_alive_def)
    with counted_holders [OF c cl] have "(if indexed enm c then 1 else 0) + count_list stack c
      \<le> use_counts st ! c" by (simp add: holders_def)
    with True cl len show ?thesis by (simp add: holders_def link_use_counts)
  next
    case False
    with m have "parent_alive ?st1 m \<longleftrightarrow> parent_alive st m"
      by (simp add: parent_alive_def pn al cong: option.case_cong)
    with counted_holders [OF c m] False show ?thesis
      by (simp add: holders_def link_use_counts)
  qed
  with len show ?thesis by (simp add: counted_def link_length link_use_counts)
qed

lemma counted_pop:
  assumes "counted enm (c # a # stack) [] st"
  shows "counted enm (c # stack) [a] st"
proof -
  have "holders enm (c # stack) [a] st m = holders enm (c # a # stack) [] st m" for m
    by (simp add: holders_def)
  with assms show ?thesis by (simp add: counted_def)
qed

lemma link_to_parent_counted:
  assumes "forest st" "counted enm (c # stack) [] st" "c < length (nodes st)"
    "\<forall>x\<in>set stack. x < length (nodes st)" "node_parent (nodes st ! c) = None"
  shows "counted enm (c # fst (link_to_parent c stack st)) [] (snd (link_to_parent c stack st))"
  using assms
proof (induction stack arbitrary: st)
  case Nil
  then show ?case by simp
next
  case (Cons a stack)
  show ?case
  proof (cases "IsNested (GetEvent st c) (GetEvent st a)")
    case True
    from Cons.prems(4) have "a < length (nodes st)" by simp
    from link_counted [OF Cons.prems(2,3) this _ Cons.prems(5)] True show ?thesis by simp
  next
    case False
    let ?st1 = "release [a] st"
    have n1: "nodes ?st1 = nodes st" by (rule release_nodes)
    from release_counted [OF Cons.prems(1) counted_pop [OF Cons.prems(2)]]
    have c1: "counted enm (c # stack) [] ?st1" .
    have f1: "forest ?st1" using Cons.prems(1) by (simp add: forest_cong [OF n1])
    from Cons.IH [OF f1 c1] Cons.prems(3,4,5) False show ?thesis by (simp add: n1)
  qed
qed

lemma indexed_upd:
  assumes m: "m \<noteq> c" and e: "enm t = Some bucket"
  shows "indexed (enm(t \<mapsto> bucket @ [c])) m = indexed enm m"
proof
  assume "indexed (enm(t \<mapsto> bucket @ [c])) m"
  then obtain t' b where b: "(enm(t \<mapsto> bucket @ [c])) t' = Some b" "m \<in> set b"
    by (auto simp: indexed_def)
  show "indexed enm m"
  proof (cases "t' = t")
    case True
    with b m have "m \<in> set bucket" by auto
    with e show ?thesis by (auto simp: indexed_def)
  next
    case False
    with b show ?thesis by (auto simp: indexed_def)
  qed
next
  assume "indexed enm m"
  then obtain t' b where b: "enm t' = Some b" "m \<in> set b" by (auto simp: indexed_def)
  show "indexed (enm(t \<mapsto> bucket @ [c])) m"
  proof (cases "t' = t")
    case True
    with b e have "(enm(t \<mapsto> bucket @ [c])) t = Some (bucket @ [c])" "m \<in> set (bucket @ [c])"
      by auto
    then show ?thesis unfolding indexed_def by blast
  next
    case False
    with b have "(enm(t \<mapsto> bucket @ [c])) t' = Some b" by simp
    with b(2) show ?thesis unfolding indexed_def by blast
  qed
qed

lemma indexed_push_back:
  "m \<noteq> c \<Longrightarrow> indexed (index_push_back enm t c) m = indexed enm m"
proof (cases "enm t")
  case None
  assume m: "m \<noteq> c"
  show ?thesis
  proof
    assume "indexed (index_push_back enm t c) m"
    then obtain t' b where b: "index_push_back enm t c t' = Some b" "m \<in> set b"
      by (auto simp: indexed_def)
    with None m have "t' \<noteq> t" by (auto simp: index_push_back_def split: if_splits)
    with b show "indexed enm m" by (auto simp: indexed_def index_push_back_def)
  next
    assume "indexed enm m"
    then obtain t' b where b: "enm t' = Some b" "m \<in> set b" by (auto simp: indexed_def)
    with None have "t' \<noteq> t" by auto
    with b show "indexed (index_push_back enm t c) m"
      by (auto simp: indexed_def index_push_back_def)
  qed
next
  case (Some bucket)
  assume "m \<noteq> c"
  from indexed_upd [of m c enm t bucket, OF this Some] Some show ?thesis
    by (simp add: index_push_back_def)
qed

lemma retain_counted:
  assumes c: "counted enm stack [] st" and cl: "c < length (nodes st)" and cs: "c \<in> set stack"
    and ix: "\<forall>m. m \<noteq> c \<longrightarrow> indexed enm' m = indexed enm m"
  shows "counted enm' stack [] (retain c st)"
proof -
  from c have len: "length (use_counts st) = length (nodes st)" by (rule counted_length)
  from counted_stack_alive [OF c cl cs] have ac: "alive st c" .
  have al: "alive (retain c st) x \<longleftrightarrow> alive st x" for x
    using ac by (auto simp: alive_def retain_def nth_list_update)
  have pa: "parent_alive (retain c st) m \<longleftrightarrow> parent_alive st m" for m
    by (simp add: parent_alive_def al retain_nodes cong: option.case_cong)
  have "holders enm' stack [] (retain c st) m \<le> use_counts (retain c st) ! m"
    if m: "m < length (nodes st)" for m
  proof (cases "m = c")
    case True
    with counted_holders [OF c cl] cl len pa [of c] show ?thesis
      by (auto simp: holders_def retain_def split: if_splits)
  next
    case False
    with counted_holders [OF c m] ix pa [of m] show ?thesis
      by (auto simp: holders_def retain_def split: if_splits)
  qed
  with len show ?thesis by (simp add: counted_def retain_nodes) (simp add: retain_def)
qed


lemma ConnectIntraThread_event_counted:
  assumes e: "ConnectIntraThread_event visitor r (stack, st, enm) = (stack', st', enm')"
    and f: "forest st" and c: "counted enm stack [] st" and ix: "index_in_store enm st"
    and s: "\<forall>x\<in>set stack. x < length (nodes st)"
  shows "counted enm' stack' [] st'"
proof -
  define cur where "cur = length (nodes st)"
  define st1 where "st1 = add_node visitor r st"
  obtain s1 st2 where lk: "link_to_parent cur stack st1 = (s1, st2)" by fastforce
  then have lk': "link_to_parent (length (nodes st)) stack
      (st\<lparr>nodes := nodes st @ [new_node visitor r], use_counts := use_counts st @ [Suc 0]\<rparr>)
      = (s1, st2)"
    by (simp add: cur_def st1_def add_node_def)
  define event where "event = get_event (planes st) r"
  define t where "t = (case GetEventType visitor event of
                          Some t \<Rightarrow> t | None \<Rightarrow> kUnknownHostEventType)"
  define enm1 where "enm1 = (case enm t of Some bucket \<Rightarrow> enm(t \<mapsto> bucket @ [cur])
                             | None \<Rightarrow> enm)"
  define st3 where "st3 = (case enm t of Some bucket \<Rightarrow> retain cur st2 | None \<Rightarrow> st2)"
  define enm2 where "enm2 = (if contains enm1 kKernelLaunch \<or> contains enm1 kKernelExecute
                    then (case GetKernelEventType visitor event of
                            Some kernel_event_type \<Rightarrow>
                              index_push_back enm1 kernel_event_type cur
                          | None \<Rightarrow> enm1)
                    else enm1)"
  define st4 where "st4 = (if contains enm1 kKernelLaunch \<or> contains enm1 kKernelExecute
                   then (case GetKernelEventType visitor event of
                           Some kernel_event_type \<Rightarrow> retain cur st3
                         | None \<Rightarrow> st3)
                   else st3)"
  have "ConnectIntraThread_event visitor r (stack, st, enm) = (cur # s1, st4, enm2)"
    unfolding ConnectIntraThread_event_def cur_def event_def t_def
      enm1_def st3_def enm2_def st4_def Let_def
    by (simp add: lk')
  with e have r: "stack' = cur # s1" "st' = st4" "enm' = enm2" by simp_all
  have f1: "forest st1" unfolding st1_def by (rule forest_add_node [OF f])
  have c1: "counted enm (cur # stack) [] st1"
    unfolding st1_def cur_def by (rule add_node_counted [OF c f ix s])
  have l1: "length (nodes st1) = Suc cur" by (simp add: st1_def cur_def add_node_length)
  have "counted enm (cur # fst (link_to_parent cur stack st1)) [] (snd (link_to_parent cur stack st1))"
  proof (rule link_to_parent_counted [OF f1 c1])
    show "cur < length (nodes st1)" using l1 by simp
    show "\<forall>x\<in>set stack. x < length (nodes st1)" using s l1 cur_def by auto
    show "node_parent (nodes st1 ! cur) = None"
      by (simp add: st1_def cur_def add_node_new new_node_def)
  qed
  with lk have c2: "counted enm (cur # s1) [] st2" by simp
  have l2: "cur < length (nodes st2)"
    using l1 link_to_parent_length [of cur stack st1] lk by simp
  have c3: "counted enm1 (cur # s1) [] st3"
  proof (cases "enm t")
    case None
    with c2 show ?thesis by (simp add: enm1_def st3_def)
  next
    case (Some bucket)
    have "counted (enm(t \<mapsto> bucket @ [cur])) (cur # s1) [] (retain cur st2)"
      using Some by (intro retain_counted [OF c2 l2]) (simp_all add: indexed_upd)
    with Some show ?thesis by (simp add: enm1_def st3_def)
  qed
  have l3: "cur < length (nodes st3)"
    using l2 by (simp add: st3_def retain_nodes split: option.splits)
  have c4: "counted enm2 (cur # s1) [] st4"
  proof (cases "(contains enm1 kKernelLaunch \<or> contains enm1 kKernelExecute)
                \<and> GetKernelEventType visitor event \<noteq> None")
    case False
    with c3 show ?thesis by (auto simp: enm2_def st4_def)
  next
    case True
    then obtain k where k: "GetKernelEventType visitor event = Some k" by auto
    have "counted (index_push_back enm1 k cur) (cur # s1) [] (retain cur st3)"
      by (rule retain_counted [OF c3 l3]) (simp_all add: indexed_push_back)
    with True k show ?thesis by (simp add: enm2_def st4_def)
  qed
  with r show ?thesis by simp
qed

lemma line_loop_counted:
  assumes f: "forest st0" and c: "counted enm0 [] [] st0" and ix: "index_in_store enm0 st0"
  shows "counted (snd (snd (line_loop visitor p l n (st0, enm0))))
           (fst (line_loop visitor p l n (st0, enm0))) []
           (fst (snd (line_loop visitor p l n (st0, enm0))))"
proof (induction n)
  case 0
  with c show ?case by (simp add: line_loop_0)
next
  case (Suc n)
  obtain stack st enm where a: "line_loop visitor p l n (st0, enm0) = (stack, st, enm)"
    using prod_cases3 by blast
  obtain stack' st' enm' where
    e: "ConnectIntraThread_event visitor (p, l, n) (stack, st, enm) = (stack', st', enm')"
    using prod_cases3 by blast
  from line_inv_loop [OF f, of p l n visitor enm0] a
  have fs: "forest st" and sr: "\<forall>x\<in>set stack. x < length (nodes st)"
    by (auto simp: line_inv_def)
  from index_in_store_line_loop [OF ix, of visitor p l n] a have ixs: "index_in_store enm st"
    by simp
  from Suc a have cs: "counted enm stack [] st" by simp
  from ConnectIntraThread_event_counted [OF e fs cs ixs sr] a e show ?case
    by (simp add: line_loop_Suc)
qed

lemma count_list_rev_eq: "count_list (rev xs) x = count_list xs x"
  by (induction xs) (simp_all add: count_list_append)

lemma ConnectIntraThread_line_counted:
  assumes r: "ConnectIntraThread_line visitor p l (st, enm) = (st', enm')"
    and f: "forest st" and c: "counted enm [] [] st" and ix: "index_in_store enm st"
  shows "counted enm' [] [] st'"
proof -
  let ?n = "length (events (lines (planes st ! p) ! l))"
  from r obtain stack st1 where l: "line_loop visitor p l ?n (st, enm) = (stack, st1, enm')"
    and s: "st' = release (rev stack) st1"
    by (rule ConnectIntraThread_line_cases)
  from line_loop_counted [OF f c ix, of visitor p l ?n] l
  have c1: "counted enm' stack [] st1" by simp
  have "holders enm' [] (rev stack) st1 m = holders enm' stack [] st1 m" for m
    by (simp add: holders_def count_list_rev_eq)
  with c1 have c2: "counted enm' [] (rev stack) st1" by (simp add: counted_def)
  from line_inv_loop [OF f, of p l ?n visitor enm] l have "forest st1"
    by (simp add: line_inv_def)
  from release_counted [OF this c2] s show ?thesis by simp
qed

lemma try_emplace_empty:
  "\<forall>t l. m t = Some l \<longrightarrow> l = [] \<Longrightarrow> \<forall>t l. try_emplace m k t = Some l \<longrightarrow> l = []"
  by (auto simp: try_emplace_def split: option.splits)

lemma fold_try_emplace_empty:
  "\<forall>t l. m t = Some l \<longrightarrow> l = [] \<Longrightarrow>
     \<forall>t l. fold (\<lambda>event_type m. try_emplace m event_type) ks m t = Some l \<longrightarrow> l = []"
proof (induction ks arbitrary: m)
  case Nil
  then show ?case by simp
next
  case (Cons k ks)
  from Cons.IH [OF try_emplace_empty [OF Cons.prems, of k]] show ?case by simp
qed

lemma fold_rules_empty:
  "\<forall>t l. m t = Some l \<longrightarrow> l = [] \<Longrightarrow>
     \<forall>t l. fold (\<lambda>connect_info m.
                try_emplace (try_emplace m (parent_event_type connect_info))
                  (child_event_type connect_info)) cs m t = Some l \<longrightarrow> l = []"
proof (induction cs arbitrary: m)
  case Nil
  then show ?case by simp
next
  case (Cons c cs)
  from Cons.IH [OF try_emplace_empty [OF try_emplace_empty [OF Cons.prems]]] show ?case by simp
qed

lemma CreateEventNodeMap_empty:
  "CreateEventNodeMap connect_info_list root_event_types t = Some l \<Longrightarrow> l = []"
proof -
  have "\<forall>t l. (Map.empty :: EventNodeMap) t = Some l \<longrightarrow> l = []" by simp
  from fold_try_emplace_empty [OF fold_rules_empty [OF this]]
  show "CreateEventNodeMap connect_info_list root_event_types t = Some l \<Longrightarrow> l = []"
    unfolding CreateEventNodeMap_def by blast
qed

lemma CreateEventNodeMap_index:
  "index_in_store (CreateEventNodeMap connect_info_list root_event_types) st"
  unfolding index_in_store_def using CreateEventNodeMap_empty by fastforce

lemma forest_empty: "forest \<lparr>planes = ps, nodes = [], use_counts = []\<rparr>"
  by (simp add: forest_def)

lemma counted_empty: "counted enm [] [] \<lparr>planes = ps, nodes = [], use_counts = []\<rparr>"
  by (simp add: counted_def)


section \<open>A null host plane\<close>

text \<open>
  C7. For every rule list, root-type list and list of device planes, \<^verbatim>\<open>GroupEvents\<close> with a
  null host plane returns without an error, leaves every device plane as it was and
  leaves the name table as it was passed in; an empty table stays empty.
\<close>

theorem GroupEvents_null_host:
  "GroupEvents fuel connect_info_list root_event_types None device_traces event_group_name_map
     = Some (Inr (None, device_traces, event_group_name_map))
   \<and> GroupEvents fuel connect_info_list root_event_types None device_traces Map.empty
     = Some (Inr (None, device_traces, Map.empty))"
  by (simp add: GroupEvents_def)

section \<open>Kernel events in the intra-thread pass\<close>

lemma kernel_flags_scan:
  "kernel_flags visitor ss (c, d) =
     (c \<or> (\<exists>s\<in>set ss. GetStatType visitor s = Some kCorrelationId),
      d \<or> (\<exists>s\<in>set ss. GetStatType visitor s \<noteq> Some kCorrelationId \<and> GetStatType visitor s = Some kDeviceId))"
  by (induction ss arbitrary: c d) auto

text \<open>
  C9. \<^verbatim>\<open>GetKernelEventType\<close> classifies an event by its stats alone: with a correlation-id
  stat and no device-id stat it is a kernel-execute event, with both it is a kernel-launch
  event, without a correlation-id stat it is neither. In the loop body of
  \<^verbatim>\<open>ConnectIntraThread\<close> the scan runs only when the index holds the kernel-launch or the
  kernel-execute bucket, and the node of a classified event is appended to the bucket of
  its kernel type (after the append to the bucket of its declared type, if the index has
  that bucket); otherwise the index is left as the declared type leaves it.
\<close>

theorem kernel_event_classification:
  "GetKernelEventType visitor event =
     (if (\<exists>s\<in>set (stats event). GetStatType visitor s = Some kCorrelationId)
      then Some (if (\<exists>s\<in>set (stats event). GetStatType visitor s = Some kDeviceId)
                 then kKernelLaunch else kKernelExecute)
      else None)
   \<and> snd (snd (ConnectIntraThread_event visitor r (parent_nodes, st, event_node_map))) =
     (let cur_node = length (nodes st);
          event = get_event (planes st) r;
          event_type = (case GetEventType visitor event of
                          Some t \<Rightarrow> t | None \<Rightarrow> kUnknownHostEventType);
          enm1 = (case event_node_map event_type of
                    Some bucket \<Rightarrow> event_node_map(event_type \<mapsto> bucket @ [cur_node])
                  | None \<Rightarrow> event_node_map)
      in if contains event_node_map kKernelLaunch \<or> contains event_node_map kKernelExecute
         then (case GetKernelEventType visitor event of
                 Some kernel_event_type \<Rightarrow>
                   enm1(kernel_event_type \<mapsto>
                     (case enm1 kernel_event_type of Some l \<Rightarrow> l | None \<Rightarrow> []) @ [cur_node])
               | None \<Rightarrow> enm1)
         else enm1)"
proof -
  have a: "GetKernelEventType visitor event =
     (if (\<exists>s\<in>set (stats event). GetStatType visitor s = Some kCorrelationId)
      then Some (if (\<exists>s\<in>set (stats event). GetStatType visitor s = Some kDeviceId)
                 then kKernelLaunch else kKernelExecute)
      else None)"
    by (auto simp: GetKernelEventType_def kernel_flags_scan)
  have c: "contains (case m t of Some bucket \<Rightarrow> m(t \<mapsto> bucket @ [n]) | None \<Rightarrow> m) k = contains m k"
    for m :: EventNodeMap and t n k
    by (auto simp: contains_def split: option.splits)
  have b: "snd (snd (ConnectIntraThread_event visitor r (parent_nodes, st, event_node_map))) =
     (let cur_node = length (nodes st);
          event = get_event (planes st) r;
          event_type = (case GetEventType visitor event of
                          Some t \<Rightarrow> t | None \<Rightarrow> kUnknownHostEventType);
          enm1 = (case event_node_map event_type of
                    Some bucket \<Rightarrow> event_node_map(event_type \<mapsto> bucket @ [cur_node])
                  | None \<Rightarrow> event_node_map)
      in if contains event_node_map kKernelLaunch \<or> contains event_node_map kKernelExecute
         then (case GetKernelEventType visitor event of
                 Some kernel_event_type \<Rightarrow>
                   enm1(kernel_event_type \<mapsto>
                     (case enm1 kernel_event_type of Some l \<Rightarrow> l | None \<Rightarrow> []) @ [cur_node])
               | None \<Rightarrow> enm1)
         else enm1)"
    unfolding ConnectIntraThread_event_def Let_def c index_push_back_def
    by (simp split: prod.splits)
  show ?thesis using a b by (rule conjI)
qed

section \<open>Correlation keys and the inter-thread pass\<close>

text \<open>
  On an ancestor chain through nodes that are alive, \<^verbatim>\<open>GetContextStat\<close> returns, and
  returns the context stat of the specification.
\<close>

lemma GetContextStat_safe:
  "safe_chain k st n \<Longrightarrow> GetContextStat k st n t = Some (Inr (context_stat k st n t))"
proof (induction k arbitrary: n)
  case 0
  then show ?case by simp
next
  case (Suc k)
  show ?case
  proof (cases "GetStat (node_visitor (nodes st ! n)) (GetEvent st n) t")
    case (Some stat)
    then show ?thesis by (simp add: context_stat_def own_stat_def)
  next
    case None
    show ?thesis
    proof (cases "node_parent (nodes st ! n)")
      case np: None
      with None show ?thesis by (simp add: context_stat_def own_stat_def)
    next
      case (Some p)
      with Suc.prems have a: "alive st p" and s: "safe_chain k st p" by simp_all
      from a have "use_counts st ! p \<noteq> 0" by (simp add: alive_def)
      with Suc.IH [OF s] None Some show ?thesis by (simp add: context_stat_def own_stat_def)
    qed
  qed
qed





















section \<open>Group names\<close>

lemma sint_add_no_overflow:
  fixes a b :: int64
  assumes "- (2 ^ 63) \<le> sint a + sint b" "sint a + sint b < 2 ^ 63"
  shows "sint (a + b) = sint a + sint b"
  using assms by (simp add: sint_word_ariths signed_take_bit_int_eq_self)

text \<open>
  C6 as stated fails for a step number that is stored as an unsigned integer:
  \<^verbatim>\<open>GetGroupName\<close> reads the signed-integer member of the stat, which is 0 then, so the
  step number 3 gives the name "0" and not "3".
\<close>

theorem group_name_unsigned_counterexample:
  "safe_chain (Suc 0) unsigned_step_store 0
   \<and> context_stat (Suc 0) unsigned_step_store 0 kGraphType = None
   \<and> context_stat (Suc 0) unsigned_step_store 0 kStepNum
       = Some \<lparr>stat_metadata_id = 5, stat_value = Uint64Value 3\<rparr>
   \<and> context_stat (Suc 0) unsigned_step_store 0 kIterNum = None
   \<and> group_name None 3 0 = ''3''
   \<and> GetGroupName (Suc 0) unsigned_step_store 0 = Some (Inr ''0'')
   \<and> GetGroupName (Suc 0) unsigned_step_store 0 \<noteq> Some (Inr (group_name None 3 0))"
  by (simp add: model_defs trace_defs spec_defs group_name_def unsigned_step_store_def)

text \<open>
  C6, amended. For a node whose ancestor chain goes through nodes that are alive,
  \<^verbatim>\<open>GetGroupName\<close> returns without an error, and the name is the graph type (the string
  member of the graph-type stat of the node or of its nearest ancestor that has one),
  when there is one, then one space, then the decimal form of step number plus iteration
  number: the signed-integer members of the context stats, 0 for an absent stat and for
  a stat whose value is not a signed integer; without a graph type the name is the
  decimal sum alone. The sum is taken to fit the \<^verbatim>\<open>int64\<close> of the source. Graph type
  "train", step number 3 and iteration number 0 give "train 3"; no graph type, step
  number 0 and iteration number 5 give "5".
\<close>

theorem group_name_format:
  assumes "safe_chain fuel st n"
    and "step_number = (case context_stat fuel st n kStepNum of
                          Some s \<Rightarrow> sint (int64_value s) | None \<Rightarrow> 0)"
    and "iteration_number = (case context_stat fuel st n kIterNum of
                               Some s \<Rightarrow> sint (int64_value s) | None \<Rightarrow> 0)"
    and "- (2 ^ 63) \<le> step_number + iteration_number"
    and "step_number + iteration_number < 2 ^ 63"
  shows "GetGroupName fuel st n =
           Some (Inr (group_name (map_option str_value (context_stat fuel st n kGraphType))
                        step_number iteration_number))"
proof -
  define a :: int64 where
    "a = (case context_stat fuel st n kStepNum of Some s \<Rightarrow> int64_value s | None \<Rightarrow> 0)"
  define b :: int64 where
    "b = (case context_stat fuel st n kIterNum of Some s \<Rightarrow> int64_value s | None \<Rightarrow> 0)"
  have sa: "sint a = step_number" and sb: "sint b = iteration_number"
    using assms(2,3) by (auto simp: a_def b_def split: option.splits)
  have sum: "sint (a + b) = step_number + iteration_number"
    using sint_add_no_overflow [of a b] assms(4,5) sa sb by simp
  note g = GetContextStat_safe [OF assms(1)]
  have "GetGroupName fuel st n =
          Some (Inr (StrJoin ((case context_stat fuel st n kGraphType of
                                 Some s \<Rightarrow> [str_value s] | None \<Rightarrow> []) @ [StrCat (a + b)]) '' ''))"
    unfolding GetGroupName_def a_def b_def Let_def
    by (simp add: g split: option.splits)
  then show ?thesis
    by (cases "context_stat fuel st n kGraphType") (simp_all add: group_name_def StrCat_def sum)
qed

theorem group_name_format_witness:
  "safe_chain (Suc (Suc 0)) name_store 1
   \<and> own_stat name_store kGraphType 1 = None
   \<and> map_option str_value (context_stat (Suc (Suc 0)) name_store 1 kGraphType) = Some ''train''
   \<and> GetGroupName (Suc (Suc 0)) name_store 1 = Some (Inr ''train 3'')
   \<and> safe_chain (Suc (Suc 0)) name_store 2
   \<and> GetGroupName (Suc (Suc 0)) name_store 2 = Some (Inr ''5'')"
proof -
  let ?k = "Suc (Suc 0)"
  have c1: "safe_chain ?k name_store 1" and c2: "safe_chain ?k name_store 2"
    by (simp_all add: name_store_def mk_node_def alive_def)
  have o1: "own_stat name_store kGraphType 1 = None"
    and g1: "map_option str_value (context_stat ?k name_store 1 kGraphType) = Some ''train''"
    and s1: "(3::int) = (case context_stat ?k name_store 1 kStepNum of
                          Some s \<Rightarrow> sint (int64_value s) | None \<Rightarrow> 0)"
    and i1: "(0::int) = (case context_stat ?k name_store 1 kIterNum of
                          Some s \<Rightarrow> sint (int64_value s) | None \<Rightarrow> 0)"
    and g2: "map_option str_value (context_stat ?k name_store 2 kGraphType) = None"
    and s2: "(0::int) = (case context_stat ?k name_store 2 kStepNum of
                          Some s \<Rightarrow> sint (int64_value s) | None \<Rightarrow> 0)"
    and i2: "(5::int) = (case context_stat ?k name_store 2 kIterNum of
                          Some s \<Rightarrow> sint (int64_value s) | None \<Rightarrow> 0)"
    by (simp_all add: model_defs trace_defs spec_defs name_store_def)
  have r1: "- (2 ^ 63) \<le> (3::int) + 0" "(3::int) + 0 < 2 ^ 63"
    and r2: "- (2 ^ 63) \<le> (0::int) + 5" "(0::int) + 5 < 2 ^ 63"
    by simp_all
  have "GetGroupName ?k name_store 1 = Some (Inr (group_name (Some ''train'') 3 0))"
    using group_name_format [OF c1 s1 i1 r1] by (simp only: g1)
  moreover have "GetGroupName ?k name_store 2 = Some (Inr (group_name None 0 5))"
    using group_name_format [OF c2 s2 i2 r2] by (simp only: g2)
  ultimately show ?thesis using c1 c2 o1 g1 by (simp add: group_name_def model_defs)
qed

section \<open>The end-to-end scenario\<close>

text \<open>
  The scenario of C3 as the claim states it: the name table is not \<open>{0: "1"}\<close>. The
  events carry a step id, and the name is made of step number and iteration number.
\<close>

theorem end_to_end_scenario_name_counterexample:
  "GroupEvents (Suc (Suc 0)) [] [kSessionRun] (Some scenario_host) [] Map.empty
     = Some (Inr (Some scenario_host_grouped, [], [0 \<mapsto> ''0'']))
   \<and> GroupEvents (Suc (Suc 0)) [] [kSessionRun] (Some scenario_host) [] Map.empty
     \<noteq> Some (Inr (Some scenario_host_grouped, [], [0 \<mapsto> ''1'']))"
proof -
  have e: "GroupEvents (Suc (Suc 0)) [] [kSessionRun] (Some scenario_host) [] Map.empty
     = Some (Inr (Some scenario_host_grouped, [], [0 \<mapsto> ''0'']))"
    by (simp add: model_defs trace_defs scenario_host_def scenario_host_grouped_def)
  have "[(0::int64) \<mapsto> ''0''] \<noteq> [0 \<mapsto> ''1'']"
  proof
    assume "[(0::int64) \<mapsto> ''0''] = [0 \<mapsto> ''1'']"
    then have "[(0::int64) \<mapsto> ''0''] 0 = [(0::int64) \<mapsto> ''1''] 0" by simp
    then show False by simp
  qed
  with e show ?thesis by simp
qed

text \<open>
  C3, amended. For the host line with A over \<open>[0, 100)\<close> of type SessionRun and B over
  \<open>[10, 90)\<close> of type ExecutorStateProcess, both with step id 1, no graph-type stat, root
  event types \<open>[SessionRun]\<close> and no correlation rule, \<^verbatim>\<open>GroupEvents\<close> makes B a child of
  A, gives both nodes group id 0, writes the group-id stat 0 onto both events and
  returns the name table \<open>{0: "0"}\<close>.
\<close>

theorem end_to_end_scenario:
  "GroupEvents_store (Suc (Suc fuel)) [] [kSessionRun] scenario_host [] Map.empty
     = Some (Inr (\<lparr>planes = [scenario_host_grouped], nodes = scenario_nodes,
                    use_counts = [1, 1]\<rparr>, [0 \<mapsto> ''0'']))
   \<and> GroupEvents (Suc (Suc fuel)) [] [kSessionRun] (Some scenario_host) [] Map.empty
     = Some (Inr (Some scenario_host_grouped, [], [0 \<mapsto> ''0'']))"
  by (simp add: model_defs trace_defs scenario_host_def scenario_host_grouped_def scenario_nodes_def)

section \<open>Attribute writes without a slot\<close>

lemma SetGroupId_without_slot:
  "GetStatMetadataId visitor kGroupId = None \<Longrightarrow> SetGroupId visitor group_id event = event"
  by (simp add: SetGroupId_def)

text \<open>
  C8 at a TraceContext root whose schema has no slot for the step-name stat:
  \<^verbatim>\<open>AddStepName\<close> dereferences the empty optional, and the pass does not continue.
\<close>

theorem AddStepName_without_slot:
  "GroupEvents (Suc fuel) [] [kTraceContext] (Some trace_context_host) [] Map.empty
     = Some (Inl NulloptDereference)"
  by (simp add: model_defs trace_defs trace_context_host_def)

section \<open>Group ids under propagation\<close>

lemma group_step_refl: "group_step g st st"
  by (simp add: group_step_def)

lemma group_step_trans: "group_step g st st' \<Longrightarrow> group_step g st' st'' \<Longrightarrow> group_step g st st''"
proof -
  assume a: "group_step g st st'" and b: "group_step g st' st''"
  have "node_children (nodes st'' ! k) = node_children (nodes st ! k) \<and>
        (node_group_id (nodes st'' ! k) = Some g \<or>
         node_group_id (nodes st'' ! k) = node_group_id (nodes st ! k))"
    if "k < length (nodes st)" for k
  proof -
    from a that have 1: "node_children (nodes st' ! k) = node_children (nodes st ! k)"
      and 2: "node_group_id (nodes st' ! k) = Some g \<or>
              node_group_id (nodes st' ! k) = node_group_id (nodes st ! k)"
      by (simp_all add: group_step_def)
    from a b that have 3: "node_children (nodes st'' ! k) = node_children (nodes st' ! k)"
      and 4: "node_group_id (nodes st'' ! k) = Some g \<or>
              node_group_id (nodes st'' ! k) = node_group_id (nodes st' ! k)"
      by (simp_all add: group_step_def)
    from 1 2 3 4 show ?thesis by auto
  qed
  with a b show ?thesis by (simp add: group_step_def)
qed

lemma group_step_assign: "group_step g st (assign_group_id g n st)"
  by (auto simp: group_step_def assign_group_id_def nth_update_at)

lemma assign_group_id_sets:
  "n < length (nodes st) \<Longrightarrow> node_group_id (nodes (assign_group_id g n st) ! n) = Some g"
  by (simp add: assign_group_id_def)

lemma PropagateGroupId_group_step:
  "PropagateGroupId fuel g n st = Some st' \<Longrightarrow> group_step g st st'"
  "PropagateGroupId_children fuel g cs st = Some st' \<Longrightarrow> group_step g st st'"
proof (induction fuel g n st and fuel g cs st arbitrary: st' and st'
       rule: PropagateGroupId_PropagateGroupId_children.induct)
  case (1 group_id n st)
  then show ?case by simp
next
  case (2 fuel group_id n st)
  from 2 show ?case
    using group_step_trans [OF group_step_assign] by simp
next
  case (3 fuel group_id st)
  then show ?case by (simp add: group_step_refl)
next
  case (4 fuel group_id child cs st)
  then show ?case
    by (auto split: option.splits intro: group_step_trans)
qed

lemma group_step_keeps:
  "group_step g st st' \<Longrightarrow> k < length (nodes st) \<Longrightarrow> node_group_id (nodes st ! k) = Some g
     \<Longrightarrow> node_group_id (nodes st' ! k) = Some g"
  by (auto simp: group_step_def)

lemma reach_group_step:
  assumes "group_step g st st'"
  shows "child_reachable st n m \<Longrightarrow> child_reachable st' n m"
    and "children_reachable st cs m \<Longrightarrow> children_reachable st' cs m"
proof (induction rule: child_reachable_children_reachable.inducts)
  case (self n)
  with assms show ?case by (auto simp: group_step_def intro: child_reachable_children_reachable.self)
next
  case (child n m)
  with assms show ?case by (auto simp: group_step_def intro: child_reachable_children_reachable.child)
next
  case (first c m cs)
  then show ?case by (auto intro: child_reachable_children_reachable.first)
next
  case (later cs m c)
  then show ?case by (auto intro: child_reachable_children_reachable.later)
qed

lemma reach_in_store:
  "child_reachable st n m \<Longrightarrow> m < length (nodes st)"
  "children_reachable st cs m \<Longrightarrow> m < length (nodes st)"
  by (induction rule: child_reachable_children_reachable.inducts) auto

lemma PropagateGroupId_reaches:
  "PropagateGroupId fuel g n st = Some st' \<Longrightarrow> child_reachable st n m
     \<Longrightarrow> node_group_id (nodes st' ! m) = Some g"
  "PropagateGroupId_children fuel g cs st = Some st' \<Longrightarrow> children_reachable st cs m
     \<Longrightarrow> node_group_id (nodes st' ! m) = Some g"
proof (induction fuel g n st and fuel g cs st arbitrary: st' m and st' m
       rule: PropagateGroupId_PropagateGroupId_children.induct)
  case (1 group_id n st)
  then show ?case by simp
next
  case (2 fuel group_id n st)
  let ?st1 = "assign_group_id group_id n st"
  from "2.prems"(1) have ch: "PropagateGroupId_children fuel group_id
      (node_children (nodes st ! n)) ?st1 = Some st'" by simp
  have gs1: "group_step group_id st ?st1" by (rule group_step_assign)
  have gs2: "group_step group_id ?st1 st'" by (rule PropagateGroupId_group_step(2) [OF ch])
  from "2.prems"(2) show ?case
  proof (cases rule: child_reachable.cases)
    case self
    then have "node_group_id (nodes ?st1 ! m) = Some group_id"
      by (simp add: assign_group_id_sets)
    with gs2 self show ?thesis
      using group_step_keeps [OF gs2, of m] gs1 by (simp add: group_step_def)
  next
    case child
    from child(2) have "children_reachable ?st1 (node_children (nodes st ! n)) m"
      by (rule reach_group_step(2) [OF gs1])
    from "2.IH" [OF ch this] show ?thesis .
  qed
next
  case (3 fuel group_id st)
  from "3.prems"(2) show ?case by (cases rule: children_reachable.cases)
next
  case (4 fuel group_id child cs st)
  from "4.prems"(1) obtain st1 where p: "PropagateGroupId fuel group_id child st = Some st1"
    and r: "PropagateGroupId_children fuel group_id cs st1 = Some st'"
    by (auto split: option.splits)
  have gs1: "group_step group_id st st1" by (rule PropagateGroupId_group_step(1) [OF p])
  have gs2: "group_step group_id st1 st'" by (rule PropagateGroupId_group_step(2) [OF r])
  have m: "m < length (nodes st)" using "4.prems"(2) by (rule reach_in_store(2))
  from "4.prems"(2) show ?case
  proof (cases rule: children_reachable.cases)
    case first
    with "4.IH"(1) [OF p] have "node_group_id (nodes st1 ! m) = Some group_id" by simp
    with group_step_keeps [OF gs2, of m] gs1 m show ?thesis by (simp add: group_step_def)
  next
    case later
    then have "children_reachable st1 cs m" by (auto intro: reach_group_step(2) [OF gs1])
    with "4.IH"(2) [OF p r] show ?thesis by simp
  qed
qed

text \<open>
  C1 as stated fails: with root event types TraceContext, FunctionRun, SessionRun and a
  FunctionRun event inside a SessionRun event, the FunctionRun node is given group id 0
  by direct root processing, and the later \<^verbatim>\<open>PropagateGroupId\<close> from the SessionRun root
  changes it to 1.
\<close>

theorem group_id_changes_counterexample:
  "map_option (map_sum id fst) (link_planes (Suc (Suc 0)) [] tf_root_event_types nested_roots_host [])
     = Some (Inr nested_roots_linked)
   \<and> PropagateGroupId (Suc (Suc 0)) 0 1 nested_roots_linked = Some nested_roots_first
   \<and> node_group_id (nodes nested_roots_first ! 1) = Some 0
   \<and> PropagateGroupId (Suc (Suc 0)) 1 0 nested_roots_first = Some nested_roots_second
   \<and> node_group_id (nodes nested_roots_second ! 1) = Some 1
   \<and> GroupEvents_store (Suc (Suc 0)) [] tf_root_event_types nested_roots_host [] Map.empty
       = Some (Inr (nested_roots_second, [0 \<mapsto> ''0'', 1 \<mapsto> ''0'']))"
  by (simp add: model_defs trace_defs nested_roots_host_def nested_roots_linked_def
      nested_roots_first_def nested_roots_second_def)

text \<open>
  C1, amended. \<^verbatim>\<open>CreateEventGroup\<close> skips a root node that already has a group id: its loop
  body leaves the next id, the store and the name table as they are. \<^verbatim>\<open>PropagateGroupId\<close>
  itself overwrites: when it returns, the node it was called on and every node that the
  child lists lead to from there have the propagated id, whatever id they had before.
\<close>

theorem group_id_overwritten_on_propagation:
  "(node_group_id (nodes st ! root_event_node) \<noteq> None \<longrightarrow>
      CreateEventGroup_root fuel root_event_type root_event_node
          (next_group_id, st, event_group_name_map)
        = Some (Inr (next_group_id, st, event_group_name_map)))
   \<and> (PropagateGroupId fuel group_id n st = Some st' \<and> child_reachable st n m \<longrightarrow>
        node_group_id (nodes st' ! m) = Some group_id)"
  by (auto simp: CreateEventGroup_root_def dest: PropagateGroupId_reaches(1))

theorem group_id_overwritten_on_propagation_witness:
  "CreateEventGroup_root (Suc (Suc 0)) kFunctionRun 1 (1, nested_roots_first, [0 \<mapsto> ''0''])
     = Some (Inr (1, nested_roots_first, [0 \<mapsto> ''0'']))
   \<and> PropagateGroupId (Suc (Suc 0)) 1 0 nested_roots_first = Some nested_roots_second
   \<and> child_reachable nested_roots_first 0 1
   \<and> node_group_id (nodes nested_roots_first ! 1) = Some 0
   \<and> node_group_id (nodes nested_roots_second ! 1) = Some 1"
proof -
  have g: "node_group_id (nodes nested_roots_first ! 1) = Some 0"
    by (simp add: nested_roots_first_def mk_node_def)
  have p: "PropagateGroupId (Suc (Suc 0)) 1 0 nested_roots_first = Some nested_roots_second"
    by (simp add: model_defs trace_defs nested_roots_first_def nested_roots_second_def)
  have "child_reachable nested_roots_first 1 1"
    by (rule child_reachable_children_reachable.self) (simp add: nested_roots_first_def)
  then have "children_reachable nested_roots_first [1] 1"
    by (rule child_reachable_children_reachable.first)
  then have "children_reachable nested_roots_first
      (node_children (nodes nested_roots_first ! 0)) 1"
    by (simp add: nested_roots_first_def mk_node_def)
  then have r: "child_reachable nested_roots_first 0 1"
    by (rule child_reachable_children_reachable.child [rotated])
       (simp add: nested_roots_first_def)
  note t = group_id_overwritten_on_propagation [where st = nested_roots_first
      and root_event_node = 1 and fuel = "Suc (Suc 0)" and root_event_type = kFunctionRun
      and next_group_id = 1 and event_group_name_map = "[0 \<mapsto> ''0'']" and group_id = 1
      and n = 0 and st' = nested_roots_second and m = 1]
  from t g p r show ?thesis by simp
qed

section \<open>Temporal containment on a line\<close>





lemma line_offset_0: "line_offset plane 0 = 0"
  by (simp add: line_offset_def)

lemma line_offset_Suc:
  "m < length (lines plane) \<Longrightarrow>
     line_offset plane (Suc m) = line_offset plane m + length (events (lines plane ! m))"
  by (simp add: line_offset_def take_Suc_conv_app_nth)

lemma plane_loop_0: "plane_loop visitor p 0 acc = acc"
  by (simp add: plane_loop_def)

lemma plane_loop_Suc:
  "plane_loop visitor p (Suc m) acc =
     ConnectIntraThread_line visitor p m (plane_loop visitor p m acc)"
  by (simp add: plane_loop_def)

lemma ConnectIntraThread_plane_loop:
  "ConnectIntraThread visitor p acc =
     plane_loop visitor p (length (lines (planes (fst acc) ! p))) acc"
  by (simp add: ConnectIntraThread_def plane_loop_def)

lemma plane_loop_inv:
  assumes f: "forest st0"
  shows "m \<le> length (lines (planes st0 ! p)) \<Longrightarrow>
     forest (fst (plane_loop visitor p m (st0, enm0))) \<and>
     old_kept st0 (fst (plane_loop visitor p m (st0, enm0))) \<and>
     length (nodes (fst (plane_loop visitor p m (st0, enm0))))
       = length (nodes st0) + line_offset (planes st0 ! p) m"
proof (induction m)
  case 0
  with f show ?case by (simp add: plane_loop_0 old_kept_refl line_offset_0)
next
  case (Suc m)
  obtain st enm where a: "plane_loop visitor p m (st0, enm0) = (st, enm)" by fastforce
  obtain st' enm' where r: "ConnectIntraThread_line visitor p m (st, enm) = (st', enm')"
    by fastforce
  from Suc a have fst: "forest st" and ok: "old_kept st0 st"
    and len: "length (nodes st) = length (nodes st0) + line_offset (planes st0 ! p) m"
    by simp_all
  from ok have pl: "planes st = planes st0" by (simp add: old_kept_def)
  from ConnectIntraThread_line_step(2) [OF r fst]
  have "forest st'" "old_kept st st'"
    "length (nodes st') = length (nodes st) + length (events (lines (planes st ! p) ! m))"
    by simp_all
  with ok len pl Suc.prems a r show ?case
    by (simp add: plane_loop_Suc line_offset_Suc old_kept_trans [OF ok])
qed

lemma plane_loop_index:
  "index_in_store enm0 st0 \<Longrightarrow>
     index_in_store (snd (plane_loop visitor p m (st0, enm0)))
       (fst (plane_loop visitor p m (st0, enm0)))"
proof (induction m)
  case 0
  then show ?case by (simp add: plane_loop_0)
next
  case (Suc m)
  obtain st enm where a: "plane_loop visitor p m (st0, enm0) = (st, enm)" by fastforce
  obtain st' enm' where r: "ConnectIntraThread_line visitor p m (st, enm) = (st', enm')"
    by fastforce
  from ConnectIntraThread_line_step(1) [OF r] Suc a r show ?case
    by (simp add: plane_loop_Suc)
qed

lemma plane_loop_counted:
  assumes f: "forest st0" and c: "counted enm0 [] [] st0" and ix: "index_in_store enm0 st0"
  shows "m \<le> length (lines (planes st0 ! p)) \<Longrightarrow>
     counted (snd (plane_loop visitor p m (st0, enm0))) [] []
       (fst (plane_loop visitor p m (st0, enm0)))"
proof (induction m)
  case 0
  with c show ?case by (simp add: plane_loop_0)
next
  case (Suc m)
  obtain st enm where a: "plane_loop visitor p m (st0, enm0) = (st, enm)" by fastforce
  obtain st' enm' where r: "ConnectIntraThread_line visitor p m (st, enm) = (st', enm')"
    by fastforce
  from Suc.prems have m: "m \<le> length (lines (planes st0 ! p))" by simp
  from plane_loop_inv [OF f m, of visitor enm0] a have fs: "forest st" by simp
  from plane_loop_index [OF ix, of visitor p m] a have ixs: "index_in_store enm st" by simp
  from Suc.IH [OF m] a have cs: "counted enm [] [] st" by simp
  from ConnectIntraThread_line_counted [OF r fs cs ixs] a r show ?case
    by (simp add: plane_loop_Suc)
qed








lemma contains_upd: "contains m t \<Longrightarrow> contains (m(k \<mapsto> l)) t"
  by (simp add: contains_def)










text \<open>
  On an ordered and properly nested line, an event that encloses a later event also
  encloses every event between the two.
\<close>

lemma well_nested_between:
  assumes w: "well_nested evs" and ie: "i < e" and ej: "e \<le> j" and j: "j < length evs"
    and n: "IsNested (evs ! j) (evs ! i)"
  shows "IsNested (evs ! e) (evs ! i)"
proof (cases "e = j")
  case True
  with n show ?thesis by simp
next
  case False
  with ej have lt: "e < j" by simp
  from w j have dj: "0 < duration_ps (evs ! j)"
    and ej': "IsNested (evs ! j) (evs ! e) \<or>
       offset_ps (evs ! e) + duration_ps (evs ! e) \<le> offset_ps (evs ! j)"
    using lt unfolding well_nested_def by blast+
  from lt j have el: "e < length evs" by simp
  from w el have de: "0 < duration_ps (evs ! e)"
    and ie': "IsNested (evs ! e) (evs ! i) \<or>
       offset_ps (evs ! i) + duration_ps (evs ! i) \<le> offset_ps (evs ! e)"
    using ie unfolding well_nested_def by blast+
  from ej' de have s: "offset_ps (evs ! e) \<le> offset_ps (evs ! j)"
    by (auto simp: IsNested_def)
  from ie' show ?thesis
  proof
    assume "offset_ps (evs ! i) + duration_ps (evs ! i) \<le> offset_ps (evs ! e)"
    with s n dj show ?thesis by (simp add: IsNested_def)
  qed
qed




section \<open>The parent/child relation after the linking passes\<close>

lemma planes_loop_0: "planes_loop 0 acc = acc"
  by (simp add: planes_loop_def)

lemma planes_loop_Suc:
  "planes_loop (Suc m) acc =
     ConnectIntraThread (CreateTfXPlaneVisitor (planes (fst (planes_loop m acc)) ! m)) m
       (planes_loop m acc)"
  by (simp add: planes_loop_def)

lemma ConnectIntraThread_planes_loop:
  "ConnectIntraThread_planes acc = planes_loop (length (planes (fst acc))) acc"
  by (simp add: ConnectIntraThread_planes_def planes_loop_def)

lemma ConnectIntraThread_step:
  assumes r: "ConnectIntraThread visitor p (st, enm) = (st', enm')"
  shows "forest st \<Longrightarrow> forest st' \<and> old_kept st st'"
    and "index_in_store enm st \<Longrightarrow> index_in_store enm' st'"
    and "forest st \<Longrightarrow> counted enm [] [] st \<Longrightarrow> index_in_store enm st \<Longrightarrow> counted enm' [] [] st'"
proof -
  show "forest st' \<and> old_kept st st'" if "forest st"
    using plane_loop_inv [OF that le_refl, where p = p and visitor = visitor and ?enm0.0 = enm] r
    by (simp add: ConnectIntraThread_plane_loop)
  show "index_in_store enm' st'" if "index_in_store enm st"
    using plane_loop_index [OF that, of visitor p "length (lines (planes st ! p))"] r
    by (simp add: ConnectIntraThread_plane_loop)
  show "counted enm' [] [] st'" if "forest st" "counted enm [] [] st" "index_in_store enm st"
    using plane_loop_counted [OF that le_refl, where p = p and visitor = visitor] r
    by (simp add: ConnectIntraThread_plane_loop)
qed

lemma planes_loop_inv:
  assumes "forest st0" "index_in_store enm0 st0" "counted enm0 [] [] st0"
  shows "forest (fst (planes_loop m (st0, enm0)))
    \<and> index_in_store (snd (planes_loop m (st0, enm0))) (fst (planes_loop m (st0, enm0)))
    \<and> counted (snd (planes_loop m (st0, enm0))) [] [] (fst (planes_loop m (st0, enm0)))"
proof (induction m)
  case 0
  with assms show ?case by (simp add: planes_loop_0)
next
  case (Suc m)
  obtain st enm where a: "planes_loop m (st0, enm0) = (st, enm)" by fastforce
  obtain st' enm' where
    r: "ConnectIntraThread (CreateTfXPlaneVisitor (planes st ! m)) m (st, enm) = (st', enm')"
    by fastforce
  from ConnectIntraThread_step [OF r] Suc a r show ?case by (simp add: planes_loop_Suc)
qed

lemma intra_passes_inv:
  "forest (fst (ConnectIntraThread_planes
       (\<lparr>planes = ps, nodes = [], use_counts = []\<rparr>, CreateEventNodeMap cil roots)))
   \<and> index_in_store
        (snd (ConnectIntraThread_planes
           (\<lparr>planes = ps, nodes = [], use_counts = []\<rparr>, CreateEventNodeMap cil roots)))
        (fst (ConnectIntraThread_planes
           (\<lparr>planes = ps, nodes = [], use_counts = []\<rparr>, CreateEventNodeMap cil roots)))
   \<and> counted
        (snd (ConnectIntraThread_planes
           (\<lparr>planes = ps, nodes = [], use_counts = []\<rparr>, CreateEventNodeMap cil roots))) [] []
        (fst (ConnectIntraThread_planes
           (\<lparr>planes = ps, nodes = [], use_counts = []\<rparr>, CreateEventNodeMap cil roots)))"
  using planes_loop_inv [OF forest_empty [of ps]
      CreateEventNodeMap_index [of cil roots "\<lparr>planes = ps, nodes = [], use_counts = []\<rparr>"]
      counted_empty [of "CreateEventNodeMap cil roots" ps], of "length ps"]
  by (simp add: ConnectIntraThread_planes_loop)

lemma forest_live:
  assumes f: "forest st" and c: "counted enm [] [] st"
  shows "live_forest st"
  unfolding live_forest_def
proof (intro conjI allI impI ballI)
  show "length (use_counts st) = length (nodes st)" by (rule counted_length [OF c])
next
  fix n assume n: "n < length (nodes st)"
  show "case node_parent (nodes st ! n) of None \<Rightarrow> True
        | Some p \<Rightarrow> p < n \<and> (alive st p \<longrightarrow> n \<in> set (node_children (nodes st ! p)))"
  proof (cases "node_parent (nodes st ! n)")
    case None
    then show ?thesis by simp
  next
    case (Some q)
    from forest_parent [OF f n Some] Some show ?thesis by simp
  qed
next
  fix n assume n: "n < length (nodes st)"
  show "distinct (node_children (nodes st ! n))" by (rule forest_distinct [OF f n])
next
  fix n c' assume n: "n < length (nodes st)" and ch: "c' \<in> set (node_children (nodes st ! n))"
  from forest_child [OF f n ch] show "c' < length (nodes st)" by simp
next
  fix n c' assume n: "n < length (nodes st)" and a: "alive st n"
    and ch: "c' \<in> set (node_children (nodes st ! n))"
  from forest_child [OF f n ch] have "c' < length (nodes st)" "node_parent (nodes st ! c') = Some n"
    by simp_all
  from counted_child_alive [OF c this a] show "alive st c'" .
next
  fix n c' assume n: "n < length (nodes st)" and ch: "c' \<in> set (node_children (nodes st ! n))"
  from forest_child [OF f n ch] show "node_parent (nodes st ! c') = Some n" by simp
qed

lemma live_forest_parent:
  assumes "live_forest st" "n < length (nodes st)" "alive st n" "node_parent (nodes st ! n) = Some q"
  shows "q < n"
proof -
  from assms(1,2,3) have "case node_parent (nodes st ! n) of None \<Rightarrow> True
        | Some p \<Rightarrow> p < n \<and> (alive st p \<longrightarrow> n \<in> set (node_children (nodes st ! p)))"
    unfolding live_forest_def by blast
  with assms(4) show ?thesis by simp
qed

lemma live_forest_ancestor_at:
  assumes f: "live_forest st"
  shows "n < length (nodes st) \<Longrightarrow> alive st n \<Longrightarrow>
     \<exists>k\<le>n. \<exists>r. ancestor_at st k n = Some r \<and> \<not> parent_alive st r"
proof (induction n rule: less_induct)
  case (less n)
  show ?case
  proof (cases "parent_alive st n")
    case False
    then have "ancestor_at st 0 n = Some n \<and> \<not> parent_alive st n" by simp
    then show ?thesis by blast
  next
    case True
    then obtain q where p: "node_parent (nodes st ! n) = Some q" and a: "alive st q"
      by (auto simp: parent_alive_def split: option.splits)
    from live_forest_parent [OF f less.prems p] have q: "q < n" .
    with less.prems have "q < length (nodes st)" by simp
    from less.IH [OF q this a] obtain k r where
      k: "k \<le> q" "ancestor_at st k q = Some r" "\<not> parent_alive st r" by blast
    from k(2) p a have "ancestor_at st (Suc k) n = Some r" by simp
    moreover from k(1) q have "Suc k \<le> n" by simp
    ultimately show ?thesis using k(3) by blast
  qed
qed

lemma live_forest_ancestor_at_below:
  assumes f: "live_forest st"
  shows "n < length (nodes st) \<Longrightarrow> alive st n \<Longrightarrow> ancestor_at st k n = Some r \<Longrightarrow> r + k \<le> n"
proof (induction k arbitrary: n)
  case 0
  then show ?case by simp
next
  case (Suc k)
  from Suc.prems(3) obtain q where q: "node_parent (nodes st ! n) = Some q"
    and al: "alive st q" and a: "ancestor_at st k q = Some r"
    by (auto split: option.splits if_splits)
  from live_forest_parent [OF f Suc.prems(1,2) q] have "q < n" .
  moreover from this Suc.prems(1) have "q < length (nodes st)" by simp
  from Suc.IH [OF this al a] have "r + k \<le> q" .
  ultimately show ?case by simp
qed

lemma forest_parent_listed: "forest st \<Longrightarrow> parent_listed st"
  unfolding parent_listed_def
proof (intro allI impI)
  fix n assume f: "forest st" and n: "n < length (nodes st)"
  show "case node_parent (nodes st ! n) of None \<Rightarrow> True
        | Some p \<Rightarrow> p < length (nodes st) \<and> n \<in> set (node_children (nodes st ! p))"
  proof (cases "node_parent (nodes st ! n)")
    case None
    then show ?thesis by simp
  next
    case (Some q)
    from forest_parent [OF f n Some] n Some show ?thesis by simp
  qed
qed

lemma parent_listed_link:
  assumes pl: "parent_listed st" and p: "p < length (nodes st)" and c: "c < length (nodes st)"
  shows "parent_listed (SetParent c p (AddChild p c st))"
  unfolding parent_listed_def link_length
proof (intro allI impI)
  let ?st' = "SetParent c p (AddChild p c st)"
  fix n assume n: "n < length (nodes st)"
  note pn = link_any_parent_nth [OF p c]
  note cn = link_any_children_nth [OF p c]
  show "case node_parent (nodes ?st' ! n) of None \<Rightarrow> True
        | Some q \<Rightarrow> q < length (nodes st) \<and> n \<in> set (node_children (nodes ?st' ! q))"
  proof (cases "n = c")
    case True
    with p c show ?thesis by (simp add: pn cn)
  next
    case False
    show ?thesis
    proof (cases "node_parent (nodes st ! n)")
      case None
      with False n show ?thesis by (simp add: pn)
    next
      case (Some q)
      from pl n have "case node_parent (nodes st ! n) of None \<Rightarrow> True
        | Some q \<Rightarrow> q < length (nodes st) \<and> n \<in> set (node_children (nodes st ! q))"
        unfolding parent_listed_def by blast
      with Some have "q < length (nodes st)" "n \<in> set (node_children (nodes st ! q))"
        by simp_all
      with False n Some show ?thesis by (auto simp: pn cn)
    qed
  qed
qed

lemma links_kept_refl: "links_kept st st"
  by (simp add: links_kept_def)

lemma inter_inv_start:
  assumes f: "forest st" and c: "counted enm [] [] st"
  shows "inter_inv enm st st"
  unfolding inter_inv_def
proof (intro conjI allI impI ballI)
  show "parent_listed st" by (rule forest_parent_listed [OF f])
  show "links_kept st st" by (rule links_kept_refl)
  show "length (use_counts st) = length (nodes st)" by (rule counted_length [OF c])
next
  fix n assume "n < length (nodes st)" "indexed enm n"
  then show "alive st n" by (rule counted_indexed_alive [OF c])
next
  fix n c' assume n: "n < length (nodes st)" and ch: "c' \<in> set (node_children (nodes st ! n))"
  from forest_child [OF f n ch] show "c' < length (nodes st)" by simp
next
  fix n c' assume n: "n < length (nodes st)" and a: "alive st n"
    and ch: "c' \<in> set (node_children (nodes st ! n))"
  from forest_child [OF f n ch] have "c' < length (nodes st)" "node_parent (nodes st ! c') = Some n"
    by simp_all
  from counted_child_alive [OF c this a] show "alive st c'" .
qed

lemma take_prefix_append:
  "take k xs = ys \<Longrightarrow> length ys = k \<Longrightarrow> take k (xs @ zs) = ys"
  by (metis append_eq_conv_conj append_take_drop_id append.assoc)

lemma inter_inv_link:
  assumes i: "inter_inv enm st0 st" and p: "p < length (nodes st)" and c: "c < length (nodes st)"
    and ip: "indexed enm p" and ic: "indexed enm c"
  shows "inter_inv enm st0 (SetParent c p (AddChild p c st))"
proof -
  let ?st' = "SetParent c p (AddChild p c st)"
  from i have pl: "parent_listed st" and lk: "links_kept st0 st"
    and len: "length (use_counts st) = length (nodes st)"
    and ia: "\<forall>n<length (nodes st). indexed enm n \<longrightarrow> alive st n"
    and ca: "\<forall>n<length (nodes st). alive st n \<longrightarrow>
        (\<forall>c\<in>set (node_children (nodes st ! n)). c < length (nodes st) \<and> alive st c)"
    unfolding inter_inv_def by blast+
  from ia c ic have ac: "alive st c" by blast
  have al: "alive ?st' x \<longleftrightarrow> alive st x" for x
    using ac by (auto simp: alive_def link_use_counts nth_list_update)
  note cn = link_any_children_nth [OF p c]
  have 1: "parent_listed ?st'" by (rule parent_listed_link [OF pl p c])
  from lk have l0: "length (nodes st) = length (nodes st0)" by (simp add: links_kept_def)
  have 2: "links_kept st0 ?st'"
    unfolding links_kept_def link_length
  proof (intro conjI allI impI)
    show "length (nodes st) = length (nodes st0)" by (rule l0)
  next
    fix n assume n: "n < length (nodes st0)"
    from lk n have "alive st n = alive st0 n" unfolding links_kept_def by blast
    then show "alive ?st' n = alive st0 n" by (simp only: al)
  next
    fix n assume n: "n < length (nodes st0)"
    from lk n have t: "take (length (node_children (nodes st0 ! n))) (node_children (nodes st ! n))
          = node_children (nodes st0 ! n)" unfolding links_kept_def by blast
    from n l0 have n': "n < length (nodes st)" by simp
    show "take (length (node_children (nodes st0 ! n))) (node_children (nodes ?st' ! n))
          = node_children (nodes st0 ! n)"
    proof (cases "n = p")
      case True
      with take_prefix_append [OF t refl, of "[c]"] n' show ?thesis
        by (simp add: cn)
    next
      case False
      with t n' show ?thesis by (simp add: cn)
    qed
  qed
  have 3: "length (use_counts ?st') = length (nodes ?st')"
    using len by (simp add: link_use_counts link_length)
  have 4: "\<forall>n<length (nodes ?st'). indexed enm n \<longrightarrow> alive ?st' n"
  proof (intro allI impI)
    fix n assume "n < length (nodes ?st')" "indexed enm n"
    with ia have "alive st n" by (simp add: link_length)
    then show "alive ?st' n" by (simp only: al)
  qed
  have 5: "\<forall>n<length (nodes ?st'). alive ?st' n \<longrightarrow>
        (\<forall>c\<in>set (node_children (nodes ?st' ! n)). c < length (nodes ?st') \<and> alive ?st' c)"
  proof (intro allI impI ballI)
    fix n c' assume n: "n < length (nodes ?st')" and a: "alive ?st' n"
      and ch: "c' \<in> set (node_children (nodes ?st' ! n))"
    from n have n': "n < length (nodes st)" by (simp only: link_length)
    from a have a': "alive st n" by (simp only: al)
    from ch n' have "c' = c \<or> c' \<in> set (node_children (nodes st ! n))"
      by (cases "n = p") (auto simp: cn)
    then have "c' < length (nodes st) \<and> alive st c'"
    proof
      assume "c' = c"
      with c ac show ?thesis by simp
    next
      assume "c' \<in> set (node_children (nodes st ! n))"
      with ca n' a' show ?thesis by blast
    qed
    then show "c' < length (nodes ?st') \<and> alive ?st' c'" by (simp only: al link_length)
  qed
  from 1 2 3 4 5 show ?thesis unfolding inter_inv_def by blast
qed

lemma build_connect_map_range:
  "build_connect_map fuel st ts ps m0 = Some (Inr m) \<Longrightarrow> m key = Some p \<Longrightarrow>
     p \<in> set ps \<or> m0 key = Some p"
proof (induction ps arbitrary: m0)
  case Nil
  then show ?case by simp
next
  case (Cons a ps)
  from Cons.prems(1) obtain k where
    r: "build_connect_map fuel st ts ps
          (if length k = length ts then m0(k \<mapsto> a) else m0) = Some (Inr m)"
    by (auto split: option.splits sum.splits)
  from Cons.IH [OF r Cons.prems(2)] show ?case by (auto split: if_splits)
qed

lemma connect_child_inv:
  assumes r: "connect_child fuel ts connect_map c st = Some (Inr st')"
    and i: "inter_inv enm st0 st" and c: "c < length (nodes st)" "indexed enm c"
    and m: "\<forall>key p. connect_map key = Some p \<longrightarrow> p < length (nodes st) \<and> indexed enm p"
  shows "inter_inv enm st0 st'"
proof -
  from r have "st' = st \<or> (\<exists>p. p < length (nodes st) \<and> indexed enm p
      \<and> st' = SetParent c p (AddChild p c st))"
    using m by (auto simp: connect_child_def split: option.splits sum.splits if_splits)
  then show ?thesis
  proof
    assume "st' = st"
    with i show ?thesis by simp
  next
    assume "\<exists>p. p < length (nodes st) \<and> indexed enm p \<and> st' = SetParent c p (AddChild p c st)"
    then obtain p where p: "p < length (nodes st)" "indexed enm p"
      "st' = SetParent c p (AddChild p c st)" by blast
    from inter_inv_link [OF i p(1) c(1) p(2) c(2)] p(3) show ?thesis by simp
  qed
qed

lemma inter_inv_length: "inter_inv enm st0 st \<Longrightarrow> length (nodes st) = length (nodes st0)"
  unfolding inter_inv_def links_kept_def by blast

lemma connect_children_inv:
  "connect_children fuel ts connect_map cs st = Some (Inr st') \<Longrightarrow> inter_inv enm st0 st \<Longrightarrow>
     \<forall>c\<in>set cs. c < length (nodes st0) \<and> indexed enm c \<Longrightarrow>
     \<forall>key p. connect_map key = Some p \<longrightarrow> p < length (nodes st0) \<and> indexed enm p \<Longrightarrow>
     inter_inv enm st0 st'"
proof (induction cs arbitrary: st)
  case Nil
  then show ?case by simp
next
  case (Cons c cs)
  from Cons.prems(1) obtain st1 where
    a: "connect_child fuel ts connect_map c st = Some (Inr st1)"
    and b: "connect_children fuel ts connect_map cs st1 = Some (Inr st')"
    by (auto split: option.splits sum.splits)
  note l = inter_inv_length [OF Cons.prems(2)]
  have "inter_inv enm st0 st1"
  proof (rule connect_child_inv [OF a Cons.prems(2)])
    from Cons.prems(3) l show "c < length (nodes st)" "indexed enm c" by simp_all
    from Cons.prems(4) l
    show "\<forall>key p. connect_map key = Some p \<longrightarrow> p < length (nodes st) \<and> indexed enm p"
      by simp
  qed
  from Cons.IH [OF b this _ Cons.prems(4)] Cons.prems(3) show ?case by simp
qed

lemma ConnectInterThread_rule_inv:
  assumes r: "ConnectInterThread_rule fuel enm connect_info st = Some (Inr st')"
    and i: "inter_inv enm st0 st" and ix: "index_in_store enm st0"
  shows "inter_inv enm st0 st'"
proof -
  from r obtain connect_map where
    m: "(case enm (parent_event_type connect_info) of
              Some parent_event_node_list \<Rightarrow>
                build_connect_map fuel st (connect_stat_types connect_info)
                  parent_event_node_list Map.empty
            | None \<Rightarrow> Some (Inr Map.empty)) = Some (Inr connect_map)"
    and c: "(case enm (child_event_type connect_info) of
             Some child_event_node_list \<Rightarrow>
               connect_children fuel (connect_stat_types connect_info) connect_map
                 child_event_node_list st
           | None \<Rightarrow> Some (Inr st)) = Some (Inr st')"
    by (auto simp: ConnectInterThread_rule_def split: option.splits sum.splits)
  have mr: "\<forall>key p. connect_map key = Some p \<longrightarrow> p < length (nodes st0) \<and> indexed enm p"
  proof (cases "enm (parent_event_type connect_info)")
    case None
    with m show ?thesis by auto
  next
    case (Some ps)
    with m have b: "build_connect_map fuel st (connect_stat_types connect_info) ps Map.empty
      = Some (Inr connect_map)" by simp
    show ?thesis
    proof (intro allI impI)
      fix key p assume "connect_map key = Some p"
      from build_connect_map_range [OF b this] have "p \<in> set ps" by simp
      with ix Some show "p < length (nodes st0) \<and> indexed enm p"
        unfolding index_in_store_def indexed_def by blast
    qed
  qed
  show ?thesis
  proof (cases "enm (child_event_type connect_info)")
    case None
    with c i show ?thesis by simp
  next
    case (Some cs)
    with c have cc: "connect_children fuel (connect_stat_types connect_info) connect_map cs st
      = Some (Inr st')" by simp
    have "\<forall>c\<in>set cs. c < length (nodes st0) \<and> indexed enm c"
      using ix Some unfolding index_in_store_def indexed_def by blast
    from connect_children_inv [OF cc i this mr] show ?thesis .
  qed
qed

lemma ConnectInterThread_inv:
  "ConnectInterThread fuel enm rules st = Some (Inr st') \<Longrightarrow> inter_inv enm st0 st \<Longrightarrow>
     index_in_store enm st0 \<Longrightarrow> inter_inv enm st0 st'"
proof (induction rules arbitrary: st)
  case Nil
  then show ?case by simp
next
  case (Cons rule rules)
  from Cons.prems(1) obtain st1 where
    a: "ConnectInterThread_rule fuel enm rule st = Some (Inr st1)"
    and b: "ConnectInterThread fuel enm rules st1 = Some (Inr st')"
    by (auto split: option.splits sum.splits)
  from Cons.IH [OF b ConnectInterThread_rule_inv [OF a Cons.prems(2,3)] Cons.prems(3)]
  show ?case .
qed

lemma inter_inv_live_listed:
  assumes "inter_inv enm st0 st"
  shows "live_listed st"
proof -
  from assms have pl: "parent_listed st" and len: "length (use_counts st) = length (nodes st)"
    and ca: "\<forall>n<length (nodes st). alive st n \<longrightarrow>
        (\<forall>c\<in>set (node_children (nodes st ! n)). c < length (nodes st) \<and> alive st c)"
    unfolding inter_inv_def by blast+
  have "case node_parent (nodes st ! n) of None \<Rightarrow> True
        | Some p \<Rightarrow> p < length (nodes st) \<and>
                    (alive st p \<longrightarrow> n \<in> set (node_children (nodes st ! p)))"
    if "n < length (nodes st)" for n
  proof -
    from pl that have "case node_parent (nodes st ! n) of None \<Rightarrow> True
        | Some p \<Rightarrow> p < length (nodes st) \<and> n \<in> set (node_children (nodes st ! p))"
      unfolding parent_listed_def by blast
    then show ?thesis by (auto split: option.splits)
  qed
  with len ca show ?thesis unfolding live_listed_def by blast
qed

lemma link_planes_structure:
  assumes "link_planes fuel connect_info_list root_event_types host_trace device_traces
     = Some (Inr (st', event_node_map))"
  shows "live_listed st' \<and>
         links_kept (fst (ConnectIntraThread_planes
           (\<lparr>planes = host_trace # device_traces, nodes = [], use_counts = []\<rparr>,
            CreateEventNodeMap connect_info_list root_event_types))) st'"
proof -
  let ?enm0 = "CreateEventNodeMap connect_info_list root_event_types"
  let ?st0 = "\<lparr>planes = host_trace # device_traces, nodes = [], use_counts = []\<rparr>"
  let ?acc = "ConnectIntraThread_planes (?st0, ?enm0)"
  from intra_passes_inv [of "host_trace # device_traces" connect_info_list root_event_types]
  have f: "forest (fst ?acc)" and ix: "index_in_store (snd ?acc) (fst ?acc)"
    and cn: "counted (snd ?acc) [] [] (fst ?acc)"
    by simp_all
  from assms have c: "ConnectInterThread fuel (snd ?acc) connect_info_list (fst ?acc)
      = Some (Inr st')"
    by (auto simp: link_planes_def Let_def split: option.splits sum.splits)
  from ConnectInterThread_inv [OF c inter_inv_start [OF f cn] ix]
  have i: "inter_inv (snd ?acc) (fst ?acc) st'" .
  from i have "links_kept (fst ?acc) st'" unfolding inter_inv_def by blast
  with inter_inv_live_listed [OF i] show ?thesis by blast
qed

text \<open>
  C2 as stated fails. With the first rule of \<^verbatim>\<open>GroupTfEvents\<close>, an ExecutorStateProcess
  event that encloses a FunctionRun event and gives it its step id becomes the child of
  its own child: the parent references form a cycle. And a node that had a parent from
  the intra-thread pass stays in the child list of that parent when an inter-thread link
  gives it a new parent (here the TraceContext node, a root, keeps the
  ExecutorStateProcess node in its list after the FunctionRun node has become the parent).
  The index holds every node of the two traces, so every node is alive.
\<close>

theorem linked_store_not_forest_counterexample:
  "map_option (map_sum id fst) (link_planes (Suc (Suc 0)) [function_run_rule] [] cycle_host [])
     = Some (Inr cycle_linked)
   \<and> node_parent (nodes cycle_linked ! 0) = Some 1
   \<and> node_parent (nodes cycle_linked ! 1) = Some 0
   \<and> alive cycle_linked 0 \<and> alive cycle_linked 1
   \<and> ancestor_at cycle_linked (Suc (Suc 0)) 0 = Some 0
   \<and> map_option (map_sum id fst)
         (link_planes (Suc (Suc 0)) [function_run_rule] [kTraceContext] two_parents_host [])
     = Some (Inr two_parents_linked)
   \<and> alive two_parents_linked 0 \<and> alive two_parents_linked 1 \<and> alive two_parents_linked 2
   \<and> 1 \<in> set (node_children (nodes two_parents_linked ! 0))
   \<and> 1 \<in> set (node_children (nodes two_parents_linked ! 2))"
  by (simp add: model_defs trace_defs cycle_host_def two_parents_host_def function_run_rule_def
      cycle_linked_def two_parents_linked_def alive_def)

text \<open>
  C2, amended. After the intra-thread passes of \<^verbatim>\<open>GroupEvents\<close> the nodes that are alive
  form a forest: the parent of a node was created before it and, if it is alive, lists
  it; every entry of a child list is alive and has the owner as its parent; no entry is
  listed twice. In such a forest, following the parent references from a node \<open>n\<close>
  through nodes that are alive ends after at most \<open>n\<close> steps, at a node without a parent
  or at a node whose parent has been destroyed, and each step leads to a smaller index,
  so it never cycles. After the inter-thread pass, when it returns without an error, a
  parent that is alive lists the node as a child and every entry of a child list is
  alive; the same nodes are alive as before the pass, and every child list has kept its
  former entries, so a link does not remove the node from the child list of a former
  parent. The parent references may form a cycle.
\<close>

theorem linking_passes_structure:
  "live_forest (fst (ConnectIntraThread_planes
       (\<lparr>planes = ps, nodes = [], use_counts = []\<rparr>,
        CreateEventNodeMap connect_info_list root_event_types)))
   \<and> (live_forest st \<and> n < length (nodes st) \<and> alive st n \<longrightarrow>
        (\<exists>k\<le>n. \<exists>r. ancestor_at st k n = Some r \<and> \<not> parent_alive st r)
        \<and> (\<forall>k r. ancestor_at st k n = Some r \<longrightarrow> r + k \<le> n))
   \<and> (link_planes fuel connect_info_list root_event_types host_trace device_traces
         = Some (Inr (st', event_node_map)) \<longrightarrow>
        live_listed st' \<and>
        links_kept (fst (ConnectIntraThread_planes
           (\<lparr>planes = host_trace # device_traces, nodes = [], use_counts = []\<rparr>,
            CreateEventNodeMap connect_info_list root_event_types))) st')"
proof (intro conjI impI allI)
  from intra_passes_inv [of ps connect_info_list root_event_types]
  show "live_forest (fst (ConnectIntraThread_planes
       (\<lparr>planes = ps, nodes = [], use_counts = []\<rparr>,
        CreateEventNodeMap connect_info_list root_event_types)))"
    using forest_live by blast
next
  assume "live_forest st \<and> n < length (nodes st) \<and> alive st n"
  then show "\<exists>k\<le>n. \<exists>r. ancestor_at st k n = Some r \<and> \<not> parent_alive st r"
    using live_forest_ancestor_at by blast
next
  fix k r
  assume "live_forest st \<and> n < length (nodes st) \<and> alive st n" "ancestor_at st k n = Some r"
  then show "r + k \<le> n" using live_forest_ancestor_at_below by blast
next
  assume a: "link_planes fuel connect_info_list root_event_types host_trace device_traces
         = Some (Inr (st', event_node_map))"
  from link_planes_structure [OF a] show "live_listed st'" by simp
  from link_planes_structure [OF a] show "links_kept (fst (ConnectIntraThread_planes
           (\<lparr>planes = host_trace # device_traces, nodes = [], use_counts = []\<rparr>,
            CreateEventNodeMap connect_info_list root_event_types))) st'" by simp
qed

theorem linking_passes_structure_witness:
  "live_forest (fst (ConnectIntraThread_planes
       (\<lparr>planes = [two_parents_host], nodes = [], use_counts = []\<rparr>,
        CreateEventNodeMap [function_run_rule] [kTraceContext])))
   \<and> Suc 0 < length (nodes (fst (ConnectIntraThread_planes
       (\<lparr>planes = [two_parents_host], nodes = [], use_counts = []\<rparr>,
        CreateEventNodeMap [function_run_rule] [kTraceContext]))))
   \<and> alive (fst (ConnectIntraThread_planes
       (\<lparr>planes = [two_parents_host], nodes = [], use_counts = []\<rparr>,
        CreateEventNodeMap [function_run_rule] [kTraceContext]))) (Suc 0)
   \<and> (\<exists>k\<le>Suc 0. \<exists>r. ancestor_at (fst (ConnectIntraThread_planes
         (\<lparr>planes = [two_parents_host], nodes = [], use_counts = []\<rparr>,
          CreateEventNodeMap [function_run_rule] [kTraceContext]))) k (Suc 0) = Some r
         \<and> \<not> parent_alive (fst (ConnectIntraThread_planes
         (\<lparr>planes = [two_parents_host], nodes = [], use_counts = []\<rparr>,
          CreateEventNodeMap [function_run_rule] [kTraceContext]))) r)
   \<and> map_option (map_sum id fst)
         (link_planes (Suc (Suc 0)) [function_run_rule] [kTraceContext] two_parents_host [])
       = Some (Inr two_parents_linked)
   \<and> live_listed two_parents_linked
   \<and> links_kept (fst (ConnectIntraThread_planes
       (\<lparr>planes = [two_parents_host], nodes = [], use_counts = []\<rparr>,
        CreateEventNodeMap [function_run_rule] [kTraceContext]))) two_parents_linked"
proof -
  let ?st = "fst (ConnectIntraThread_planes
       (\<lparr>planes = [two_parents_host], nodes = [], use_counts = []\<rparr>,
        CreateEventNodeMap [function_run_rule] [kTraceContext]))"
  have l: "map_option (map_sum id fst)
         (link_planes (Suc (Suc 0)) [function_run_rule] [kTraceContext] two_parents_host [])
       = Some (Inr two_parents_linked)"
    by (simp add: model_defs trace_defs two_parents_host_def function_run_rule_def
        two_parents_linked_def)
  then obtain r where r: "link_planes (Suc (Suc 0)) [function_run_rule] [kTraceContext]
       two_parents_host [] = Some r" "map_sum id fst r = Inr two_parents_linked"
    by (auto simp: map_option_eq_Some)
  from r(2) obtain pr where pr: "r = Inr pr" "fst pr = two_parents_linked" by (cases r) auto
  with r(1) have e: "link_planes (Suc (Suc 0)) [function_run_rule] [kTraceContext]
       two_parents_host [] = Some (Inr (two_parents_linked, snd pr))"
    by (cases pr) auto
  have n: "Suc 0 < length (nodes ?st)"
    by (simp add: model_defs trace_defs two_parents_host_def function_run_rule_def)
  have a: "alive ?st (Suc 0)"
    by (simp add: model_defs trace_defs two_parents_host_def function_run_rule_def alive_def)
  note t = linking_passes_structure [where ps = "[two_parents_host]"
      and connect_info_list = "[function_run_rule]" and root_event_types = "[kTraceContext]"
      and st = ?st and n = "Suc 0" and fuel = "Suc (Suc 0)" and host_trace = two_parents_host
      and device_traces = "[]" and st' = two_parents_linked and event_node_map = "snd pr"]
  from t have f: "live_forest ?st" by blast
  from t f n a have x: "\<exists>k\<le>Suc 0. \<exists>r. ancestor_at ?st k (Suc 0) = Some r
      \<and> \<not> parent_alive ?st r" by blast
  from t e have p: "live_listed two_parents_linked \<and> links_kept ?st two_parents_linked" by blast
  from f n a x l p show ?thesis by blast
qed

section \<open>The recursion bound\<close>

text \<open>
  The bound on the depth of the two recursions only decides whether a call returns: a
  result that is reached with some bound is reached with every larger bound. In a forest
  both recursions return as soon as the bound is the number of nodes; \<^verbatim>\<open>GetContextStat\<close>
  may return the error of a destroyed ancestor then.
\<close>

lemma GetContextStat_mono:
  "GetContextStat fuel st n t = Some r \<Longrightarrow> GetContextStat (fuel + k) st n t = Some r"
proof (induction fuel arbitrary: n)
  case 0
  then show ?case by simp
next
  case (Suc fuel)
  then show ?case by (auto split: option.splits if_splits)
qed

lemma safe_chain_mono: "safe_chain k st n \<Longrightarrow> safe_chain (k + j) st n"
proof (induction k arbitrary: n)
  case 0
  then show ?case by simp
next
  case (Suc k)
  then show ?case by (auto split: option.splits)
qed

lemma GetContextStat_forest_returns:
  assumes f: "forest st"
  shows "n < length (nodes st) \<Longrightarrow> n < fuel \<Longrightarrow> \<exists>r. GetContextStat fuel st n t = Some r"
proof (induction fuel arbitrary: n)
  case 0
  then show ?case by simp
next
  case (Suc fuel)
  show ?case
  proof (cases "node_parent (nodes st ! n)")
    case None
    then show ?thesis by (simp split: option.splits)
  next
    case (Some q)
    from forest_parent [OF f Suc.prems(1) Some] have q: "q < n" by simp
    with Suc.prems have "q < length (nodes st)" "q < fuel" by simp_all
    from Suc.IH [OF this] Some show ?thesis by (simp split: option.splits)
  qed
qed

lemma collect_stats_mono:
  "collect_stats fuel st n ts acc = Some key \<Longrightarrow> collect_stats (fuel + k) st n ts acc = Some key"
proof (induction ts arbitrary: acc)
  case Nil
  then show ?case by simp
next
  case (Cons t ts)
  from Cons.prems obtain r where r: "GetContextStat fuel st n t = Some r"
    by (auto split: option.splits)
  from GetContextStat_mono [OF r, of k] r Cons show ?case
    by (auto split: option.splits sum.splits)
qed

lemma build_connect_map_mono:
  "build_connect_map fuel st ts ps m0 = Some m \<Longrightarrow> build_connect_map (fuel + k) st ts ps m0 = Some m"
proof (induction ps arbitrary: m0)
  case Nil
  then show ?case by simp
next
  case (Cons p ps)
  from Cons.prems obtain key where r: "collect_stats fuel st p ts [] = Some key"
    by (auto split: option.splits)
  from collect_stats_mono [OF r, of k] r Cons show ?case
    by (auto split: option.splits sum.splits)
qed

lemma connect_child_mono:
  "connect_child fuel ts m c st = Some st' \<Longrightarrow> connect_child (fuel + k) ts m c st = Some st'"
proof -
  assume a: "connect_child fuel ts m c st = Some st'"
  then obtain key where r: "collect_stats fuel st c ts [] = Some key"
    by (auto simp: connect_child_def split: option.splits)
  from collect_stats_mono [OF r, of k] r a show ?thesis by (simp add: connect_child_def)
qed

lemma connect_children_mono:
  "connect_children fuel ts m cs st = Some st' \<Longrightarrow> connect_children (fuel + k) ts m cs st = Some st'"
proof (induction cs arbitrary: st)
  case Nil
  then show ?case by simp
next
  case (Cons c cs)
  from Cons.prems obtain st1 where r: "connect_child fuel ts m c st = Some st1"
    by (auto split: option.splits)
  from connect_child_mono [OF r, of k] r Cons show ?case
    by (auto split: option.splits sum.splits)
qed

lemma ConnectInterThread_rule_mono:
  assumes "ConnectInterThread_rule fuel enm connect_info st = Some r"
  shows "ConnectInterThread_rule (fuel + k) enm connect_info st = Some r"
proof -
  from assms obtain m where
    m: "(case enm (parent_event_type connect_info) of
              Some parent_event_node_list \<Rightarrow>
                build_connect_map fuel st (connect_stat_types connect_info)
                  parent_event_node_list Map.empty
            | None \<Rightarrow> Some (Inr Map.empty)) = Some m"
    by (auto simp: ConnectInterThread_rule_def split: option.splits)
  from m have m': "(case enm (parent_event_type connect_info) of
              Some parent_event_node_list \<Rightarrow>
                build_connect_map (fuel + k) st (connect_stat_types connect_info)
                  parent_event_node_list Map.empty
            | None \<Rightarrow> Some (Inr Map.empty)) = Some m"
    by (auto split: option.splits dest: build_connect_map_mono)
  show ?thesis
  proof (cases m)
    case (Inl e)
    with assms m m' show ?thesis by (simp add: ConnectInterThread_rule_def)
  next
    case (Inr connect_map)
    with assms m have c: "(case enm (child_event_type connect_info) of
             Some child_event_node_list \<Rightarrow>
               connect_children fuel (connect_stat_types connect_info) connect_map
                 child_event_node_list st
           | None \<Rightarrow> Some (Inr st)) = Some r"
      by (simp add: ConnectInterThread_rule_def)
    then have "(case enm (child_event_type connect_info) of
             Some child_event_node_list \<Rightarrow>
               connect_children (fuel + k) (connect_stat_types connect_info) connect_map
                 child_event_node_list st
           | None \<Rightarrow> Some (Inr st)) = Some r"
      by (auto split: option.splits dest: connect_children_mono)
    with m' Inr show ?thesis by (simp add: ConnectInterThread_rule_def)
  qed
qed

lemma ConnectInterThread_mono:
  "ConnectInterThread fuel enm rules st = Some st' \<Longrightarrow>
     ConnectInterThread (fuel + k) enm rules st = Some st'"
proof (induction rules arbitrary: st)
  case Nil
  then show ?case by simp
next
  case (Cons rule rules)
  from Cons.prems obtain st1 where r: "ConnectInterThread_rule fuel enm rule st = Some st1"
    by (auto split: option.splits)
  from ConnectInterThread_rule_mono [OF r, of k] r Cons show ?case
    by (auto split: option.splits sum.splits)
qed

lemma link_planes_mono:
  assumes "link_planes fuel cil roots host devs = Some r"
  shows "link_planes (fuel + k) cil roots host devs = Some r"
proof -
  let ?acc = "ConnectIntraThread_planes
                (\<lparr>planes = host # devs, nodes = [], use_counts = []\<rparr>,
                 CreateEventNodeMap cil roots)"
  from assms obtain st where c: "ConnectInterThread fuel (snd ?acc) cil (fst ?acc) = Some st"
    by (auto simp: link_planes_def Let_def split: option.splits)
  from ConnectInterThread_mono [OF c, of k] c assms show ?thesis
    by (simp add: link_planes_def Let_def)
qed

lemma PropagateGroupId_mono:
  "PropagateGroupId fuel g n st = Some st' \<Longrightarrow> PropagateGroupId (fuel + k) g n st = Some st'"
  "PropagateGroupId_children fuel g cs st = Some st' \<Longrightarrow>
     PropagateGroupId_children (fuel + k) g cs st = Some st'"
proof (induction fuel g n st and fuel g cs st arbitrary: st' and st'
       rule: PropagateGroupId_PropagateGroupId_children.induct)
  case (1 group_id n st)
  then show ?case by simp
next
  case (2 fuel group_id n st)
  then show ?case by simp
next
  case (3 fuel group_id st)
  then show ?case by simp
next
  case (4 fuel group_id child cs st)
  from "4.prems" obtain st1 where p: "PropagateGroupId fuel group_id child st = Some st1"
    and r: "PropagateGroupId_children fuel group_id cs st1 = Some st'"
    by (auto split: option.splits)
  from "4.IH"(1) [OF p] "4.IH"(2) [OF p r] show ?case by simp
qed

lemma GetGroupName_mono:
  assumes "GetGroupName fuel st n = Some name"
  shows "GetGroupName (fuel + k) st n = Some name"
proof -
  from assms obtain g where g: "GetContextStat fuel st n kGraphType = Some g"
    by (auto simp: GetGroupName_def split: option.splits)
  note g' = GetContextStat_mono [OF g, of k]
  show ?thesis
  proof (cases g)
    case (Inl e)
    with assms g g' show ?thesis by (simp add: GetGroupName_def)
  next
    case gr: (Inr graph_type_stat)
    with assms g obtain s where s: "GetContextStat fuel st n kStepNum = Some s"
      by (auto simp: GetGroupName_def split: option.splits)
    note s' = GetContextStat_mono [OF s, of k]
    show ?thesis
    proof (cases s)
      case (Inl e)
      with assms g g' gr s s' show ?thesis by (simp add: GetGroupName_def)
    next
      case sr: (Inr step_num_stat)
      with assms g gr s obtain i where i: "GetContextStat fuel st n kIterNum = Some i"
        by (auto simp: GetGroupName_def split: option.splits)
      note i' = GetContextStat_mono [OF i, of k]
      from assms g g' gr s s' sr i i' show ?thesis by (simp add: GetGroupName_def)
    qed
  qed
qed

lemma CreateEventGroup_root_mono:
  assumes "CreateEventGroup_root fuel t root acc = Some r"
  shows "CreateEventGroup_root (fuel + k) t root acc = Some r"
proof -
  obtain next_id st names where acc: "acc = (next_id, st, names)" by (cases acc) auto
  show ?thesis
  proof (cases "node_group_id (nodes st ! root) \<noteq> None")
    case True
    with assms acc show ?thesis by (simp add: CreateEventGroup_root_def)
  next
    case False
    with assms acc obtain st1 name where p: "PropagateGroupId fuel next_id root st = Some st1"
      and n: "GetGroupName fuel st1 root = Some name"
      by (auto simp: CreateEventGroup_root_def split: option.splits)
    from PropagateGroupId_mono(1) [OF p, of k] GetGroupName_mono [OF n, of k] p n assms acc False
    show ?thesis by (simp add: CreateEventGroup_root_def)
  qed
qed

lemma CreateEventGroup_bucket_mono:
  "CreateEventGroup_bucket fuel t roots acc = Some r \<Longrightarrow>
     CreateEventGroup_bucket (fuel + k) t roots acc = Some r"
proof (induction roots arbitrary: acc)
  case Nil
  then show ?case by simp
next
  case (Cons root roots)
  from Cons.prems obtain r1 where r1: "CreateEventGroup_root fuel t root acc = Some r1"
    by (auto split: option.splits)
  from CreateEventGroup_root_mono [OF r1, of k] r1 Cons show ?case
    by (auto split: option.splits sum.splits)
qed

lemma CreateEventGroup_types_mono:
  "CreateEventGroup_types fuel enm ts acc = Some r \<Longrightarrow>
     CreateEventGroup_types (fuel + k) enm ts acc = Some r"
proof (induction ts arbitrary: acc)
  case Nil
  then show ?case by simp
next
  case (Cons t ts)
  show ?case
  proof (cases "enm t")
    case None
    with Cons show ?thesis by simp
  next
    case (Some roots)
    with Cons.prems obtain r1 where r1: "CreateEventGroup_bucket fuel t roots acc = Some r1"
      by (auto split: option.splits)
    from CreateEventGroup_bucket_mono [OF r1, of k] r1 Some Cons show ?thesis
      by (auto split: option.splits sum.splits)
  qed
qed

lemma CreateEventGroup_mono:
  assumes "CreateEventGroup fuel roots enm st names = Some r"
  shows "CreateEventGroup (fuel + k) roots enm st names = Some r"
proof -
  from assms obtain r1 where r1: "CreateEventGroup_types fuel enm roots (0, st, names) = Some r1"
    by (auto simp: CreateEventGroup_def split: option.splits)
  from CreateEventGroup_types_mono [OF r1, of k] r1 assms show ?thesis
    by (simp add: CreateEventGroup_def)
qed

lemma GroupEvents_store_mono:
  assumes "GroupEvents_store fuel cil roots host devs names = Some r"
  shows "GroupEvents_store (fuel + k) cil roots host devs names = Some r"
proof -
  from assms obtain l where l: "link_planes fuel cil roots host devs = Some l"
    by (auto simp: GroupEvents_store_def split: option.splits)
  note l' = link_planes_mono [OF l, of k]
  show ?thesis
  proof (cases l)
    case (Inl e)
    with assms l l' show ?thesis by (simp add: GroupEvents_store_def)
  next
    case (Inr p)
    obtain st enm where p: "p = (st, enm)" by (cases p) auto
    with assms l Inr have c: "CreateEventGroup fuel roots enm st names = Some r"
      by (simp add: GroupEvents_store_def)
    from CreateEventGroup_mono [OF c, of k] l' Inr p show ?thesis
      by (simp add: GroupEvents_store_def)
  qed
qed

lemma GroupEvents_mono:
  assumes "GroupEvents fuel cil roots host_trace devs names = Some r"
  shows "GroupEvents (fuel + k) cil roots host_trace devs names = Some r"
proof (cases host_trace)
  case None
  with assms show ?thesis by (simp add: GroupEvents_def)
next
  case (Some host)
  with assms obtain r1 where r1: "GroupEvents_store fuel cil roots host devs names = Some r1"
    by (auto simp: GroupEvents_def split: option.splits)
  from GroupEvents_store_mono [OF r1, of k] r1 Some assms show ?thesis
    by (simp add: GroupEvents_def)
qed

lemma forest_children_up: "forest st \<Longrightarrow> children_up st"
  unfolding children_up_def
proof (intro allI impI ballI)
  fix n c assume f: "forest st" and n: "n < length (nodes st)"
    and c: "c \<in> set (node_children (nodes st ! n))"
  from f n c have cl: "c < length (nodes st)" and p: "node_parent (nodes st ! c) = Some n"
    unfolding forest_def by blast+
  from forest_parent [OF f cl p] cl show "n < c \<and> c < length (nodes st)" by simp
qed

lemma children_up_group_step:
  assumes g: "group_step g st st'" and u: "children_up st"
  shows "children_up st'"
  unfolding children_up_def
proof (intro allI impI ballI)
  fix n c assume n: "n < length (nodes st')" and c: "c \<in> set (node_children (nodes st' ! n))"
  from g have len: "length (nodes st') = length (nodes st)" by (simp add: group_step_def)
  with g n have "node_children (nodes st' ! n) = node_children (nodes st ! n)"
    by (simp add: group_step_def)
  with c have "c \<in> set (node_children (nodes st ! n))" by simp
  with u n len have "n < c \<and> c < length (nodes st)" unfolding children_up_def by metis
  with len show "n < c \<and> c < length (nodes st')" by simp
qed

lemma PropagateGroupId_returns:
  "children_up st \<Longrightarrow> n < length (nodes st) \<Longrightarrow> length (nodes st) - n \<le> fuel
     \<Longrightarrow> \<exists>st'. PropagateGroupId fuel g n st = Some st'"
  "children_up st \<Longrightarrow> \<forall>c\<in>set cs. c < length (nodes st) \<and> length (nodes st) - c \<le> fuel
     \<Longrightarrow> \<exists>st'. PropagateGroupId_children fuel g cs st = Some st'"
proof (induction fuel g n st and fuel g cs st
       rule: PropagateGroupId_PropagateGroupId_children.induct)
  case (1 group_id n st)
  then show ?case by simp
next
  case (2 fuel group_id n st)
  let ?st1 = "assign_group_id group_id n st"
  have gs: "group_step group_id st ?st1" by (rule group_step_assign)
  then have len: "length (nodes ?st1) = length (nodes st)" by (simp add: group_step_def)
  have up: "children_up ?st1" by (rule children_up_group_step [OF gs "2.prems"(1)])
  have "\<forall>c\<in>set (node_children (nodes st ! n)).
          c < length (nodes ?st1) \<and> length (nodes ?st1) - c \<le> fuel"
  proof
    fix c assume "c \<in> set (node_children (nodes st ! n))"
    with "2.prems"(1,2) have "n < c \<and> c < length (nodes st)" unfolding children_up_def by blast
    then have "n < c" "c < length (nodes st)" by simp_all
    with "2.prems"(3) len show "c < length (nodes ?st1) \<and> length (nodes ?st1) - c \<le> fuel"
      by simp
  qed
  from "2.IH" [OF up this] show ?case by simp
next
  case (3 fuel group_id st)
  then show ?case by simp
next
  case (4 fuel group_id child cs st)
  from "4.prems"(2) have "child < length (nodes st)" "length (nodes st) - child \<le> fuel"
    by simp_all
  from "4.IH"(1) [OF "4.prems"(1) this] obtain st1 where
    p: "PropagateGroupId fuel group_id child st = Some st1" by blast
  have gs: "group_step group_id st st1" by (rule PropagateGroupId_group_step(1) [OF p])
  then have len: "length (nodes st1) = length (nodes st)" by (simp add: group_step_def)
  have up: "children_up st1" by (rule children_up_group_step [OF gs "4.prems"(1)])
  from "4.prems"(2) len
  have "\<forall>c\<in>set cs. c < length (nodes st1) \<and> length (nodes st1) - c \<le> fuel" by simp
  from "4.IH"(2) [OF p up this] p show ?case by simp
qed

lemma PropagateGroupId_forest_returns:
  "forest st \<Longrightarrow> n < length (nodes st) \<Longrightarrow> length (nodes st) \<le> fuel
     \<Longrightarrow> \<exists>st'. PropagateGroupId fuel g n st = Some st'"
proof -
  assume f: "forest st" and n: "n < length (nodes st)" and l: "length (nodes st) \<le> fuel"
  from l have "length (nodes st) - n \<le> fuel" by simp
  from PropagateGroupId_returns(1) [OF forest_children_up [OF f] n this] show ?thesis .
qed

text \<open>
  A destroyed ancestor is reached on an ordinary trace. The first event of
  \<open>dangling_host\<close> has a type for which the index has no bucket, so its node is destroyed
  at the end of the line; the node of the SessionRun event that it encloses is a root,
  and naming its group calls \<^verbatim>\<open>GetContextStat\<close> through the \<^verbatim>\<open>parent_\<close> pointer to the
  destroyed node.
\<close>

lemma destroyed_ancestor_is_read:
  "fst (ConnectIntraThread_planes
          (\<lparr>planes = [dangling_host], nodes = [], use_counts = []\<rparr>,
           CreateEventNodeMap [] [kSessionRun]))
     = \<lparr>planes = [dangling_host],
        nodes = [mk_node tf_visitor (0, 0, 0) None [1] None,
                 mk_node tf_visitor (0, 0, 1) (Some 0) [] None],
        use_counts = [0, 1]\<rparr>
   \<and> GroupEvents (Suc (Suc fuel)) [] [kSessionRun] (Some dangling_host) [] Map.empty
       = Some (Inl UseAfterFree)"
  by (simp add: model_defs trace_defs dangling_host_def)

end
